theory Spec2Isabelle
  imports Main "HOL-Library.Sublist"
begin

section \<open>JavaScript string primitives used by the preprocessor\<close>

text \<open>
  Strings are lists of code units. The model covers code units below 256, so a
  \<^typ>\<open>string\<close> literal of the theory is the JavaScript string with the same characters.
  The functions of this section are the built-ins of the language that
  \<^verbatim>\<open>src/utils/preprocessor.ts\<close> calls; each follows the ECMAScript definition of the
  built-in it is named after.
\<close>

text \<open>The white space of \<^verbatim>\<open>\s\<close> and of \<^verbatim>\<open>String.prototype.trim\<close>, below code unit 256:
  TAB, LF, VT, FF, CR, SPACE and NBSP.\<close>

definition is_space :: "char \<Rightarrow> bool" where
  "is_space c \<longleftrightarrow> c \<in> set [CHR 0x09, CHR 0x0A, CHR 0x0B, CHR 0x0C, CHR 0x0D, CHR 0x20, CHR 0xA0]"

definition trim :: "string \<Rightarrow> string" where
  "trim s = rev (dropWhile is_space (rev (dropWhile is_space s)))"

text \<open>\<^verbatim>\<open>s.startsWith(p)\<close>.\<close>

fun startsWith :: "string \<Rightarrow> string \<Rightarrow> bool" where
  "startsWith s [] = True"
| "startsWith [] (p # ps) = False"
| "startsWith (c # cs) (p # ps) = (c = p \<and> startsWith cs ps)"

text \<open>\<^verbatim>\<open>s.endsWith(p)\<close>.\<close>

definition endsWith :: "string \<Rightarrow> string \<Rightarrow> bool" where
  "endsWith s p = startsWith (rev s) (rev p)"

text \<open>\<^verbatim>\<open>s.indexOf(p, from)\<close>: the least index \<open>i \<ge> from\<close> at which \<open>p\<close> occurs in
  \<open>s\<close>; \<open>None\<close> stands for the result \<open>-1\<close>. \<open>findFrom p s k\<close> searches the suffix
  \<open>s\<close> that starts at index \<open>k\<close> of the whole string.\<close>

fun findFrom :: "string \<Rightarrow> string \<Rightarrow> nat \<Rightarrow> nat option" where
  "findFrom p [] k = (if p = [] then Some k else None)"
| "findFrom p (c # cs) k = (if startsWith (c # cs) p then Some k else findFrom p cs (Suc k))"

definition indexOfFrom :: "string \<Rightarrow> string \<Rightarrow> nat \<Rightarrow> nat option" where
  "indexOfFrom s p from = (let k = min from (length s) in findFrom p (drop k s) k)"

definition indexOf :: "string \<Rightarrow> string \<Rightarrow> nat option" where
  "indexOf s p = indexOfFrom s p 0"

text \<open>\<^verbatim>\<open>s.substring(a, b)\<close>: both indices are clamped to the length and swapped when
  \<open>a > b\<close>. \<^verbatim>\<open>s.substring(a)\<close> is \<open>drop a s\<close>.\<close>

definition substring :: "string \<Rightarrow> nat \<Rightarrow> nat \<Rightarrow> string" where
  "substring s a b =
     (let a' = min a (length s); b' = min b (length s);
          lo = min a' b'; hi = max a' b'
      in take (hi - lo) (drop lo s))"

text \<open>\<^verbatim>\<open>s.split(",")\<close> for a one-character separator: never the empty list.\<close>

fun splitOn :: "char \<Rightarrow> string \<Rightarrow> string \<Rightarrow> string list" where
  "splitOn sep [] cur = [cur]"
| "splitOn sep (c # cs) cur =
     (if c = sep then cur # splitOn sep cs [] else splitOn sep cs (cur @ [c]))"

definition split :: "string \<Rightarrow> char \<Rightarrow> string list" where
  "split s sep = splitOn sep s []"

text \<open>
  \<^verbatim>\<open>text.replace(pattern, replacement)\<close> with a string pattern and a string replacement.
  Only the first occurrence of the pattern is replaced, and the replacement string is
  not inserted as it is: ECMAScript's GetSubstitution expands \<^verbatim>\<open>$$\<close> to \<^verbatim>\<open>$\<close>,
  \<^verbatim>\<open>$&\<close> to the matched text, \<^verbatim>\<open>$`\<close> to the text before the match and \<^verbatim>\<open>$'\<close> to the
  text after it. With a string pattern there are no capture groups, so \<^verbatim>\<open>$1\<close> ...
  \<^verbatim>\<open>$99\<close> and \<^verbatim>\<open>$<\<close> stay as they are, like every other \<^verbatim>\<open>$\<close>.
\<close>

fun getSubstitution :: "string \<Rightarrow> string \<Rightarrow> string \<Rightarrow> string \<Rightarrow> string" where
  "getSubstitution matched preceding following [] = []"
| "getSubstitution matched preceding following [c] = [c]"
| "getSubstitution matched preceding following (c # d # r) =
     (if c = CHR ''$'' then
        (if d = CHR ''$'' then CHR ''$'' # getSubstitution matched preceding following r
         else if d = CHR ''&'' then matched @ getSubstitution matched preceding following r
         else if d = CHR 0x60 then preceding @ getSubstitution matched preceding following r
         else if d = CHR 0x27 then following @ getSubstitution matched preceding following r
         else c # getSubstitution matched preceding following (d # r))
      else c # getSubstitution matched preceding following (d # r))"

definition replace :: "string \<Rightarrow> string \<Rightarrow> string \<Rightarrow> string" where
  "replace text pattern replacement =
     (case indexOf text pattern of
        None \<Rightarrow> text
      | Some pos \<Rightarrow>
          (let preceding = take pos text;
               following = drop (pos + length pattern) text
           in preceding @ getSubstitution pattern preceding following replacement @ following))"

section \<open>Pipeline specifications: \<^verbatim>\<open>parsePipelineString\<close>\<close>

record stage =
  name :: string
  params :: "string list"

text \<open>
  The closure \<^verbatim>\<open>pushCurrent\<close> of the source works on the two variables \<^verbatim>\<open>result\<close> and
  \<^verbatim>\<open>current\<close>; here it takes and returns them. When the trimmed segment is empty it
  returns at once and \<^verbatim>\<open>current\<close> keeps its (white space) value.
\<close>

definition pushCurrent :: "stage list \<Rightarrow> string \<Rightarrow> stage list \<times> string" where
  "pushCurrent result current =
     (let trimmed = trim current in
      if trimmed = [] then (result, current)
      else
        (case indexOf trimmed ''('' of
           Some parenStart \<Rightarrow>
             if endsWith trimmed '')'' then
               (let name = trim (substring trimmed 0 parenStart);
                    paramsStr = substring trimmed (parenStart + 1) (length trimmed - 1);
                    params = filter (\<lambda>p. length p > 0) (map trim (split paramsStr CHR '',''))
                in (result @ [\<lparr>name = name, params = params\<rparr>], []))
             else (result @ [\<lparr>name = trimmed, params = []\<rparr>], [])
         | None \<Rightarrow> (result @ [\<lparr>name = trimmed, params = []\<rparr>], [])))"

text \<open>The \<^verbatim>\<open>for\<close> loop over the characters of the input, with its three variables.\<close>

fun parseLoop :: "string \<Rightarrow> stage list \<Rightarrow> string \<Rightarrow> int \<Rightarrow> stage list \<times> string" where
  "parseLoop [] result current depth = (result, current)"
| "parseLoop (char # rest) result current depth =
     (let depth' = (if char = CHR ''('' then depth + 1
                    else if char = CHR '')'' then depth - 1 else depth)
      in if char = CHR '','' \<and> depth' = 0
         then (case pushCurrent result current of
                 (result', current') \<Rightarrow> parseLoop rest result' current' depth')
         else parseLoop rest result (current @ [char]) depth')"

definition parsePipelineString :: "string \<Rightarrow> stage list" where
  "parsePipelineString input =
     (case parseLoop input [] [] 0 of
        (result, current) \<Rightarrow> fst (pushCurrent result current))"

section \<open>Pipeline execution: \<^verbatim>\<open>executePipelines\<close>\<close>

text \<open>
  A pipeline function is supplied by the configuration. It is called with the context
  \<^verbatim>\<open>{content, pipelineName, toolName, strategyName, params, engine}\<close> and either returns
  an object with a string \<^verbatim>\<open>content\<close>, returns nothing usable, or throws. The model
  takes it as a function of the first five fields.
\<close>

datatype pipeline_result = Content string | Void | Throws

type_synonym PipelineFn = "string \<Rightarrow> string \<Rightarrow> string \<Rightarrow> string \<Rightarrow> string list \<Rightarrow> pipeline_result"

type_synonym registry = "string \<Rightarrow> PipelineFn option"

text \<open>The loop over the parsed stages; \<open>content\<close> is the argument of
  \<^verbatim>\<open>executePipelines\<close>, \<open>currentContent\<close> the loop variable.\<close>

fun runStages :: "string \<Rightarrow> registry \<Rightarrow> string \<Rightarrow> string \<Rightarrow> stage list \<Rightarrow> string \<Rightarrow> string" where
  "runStages content availablePipelines toolName strategyName [] currentContent = currentContent"
| "runStages content availablePipelines toolName strategyName (s # ss) currentContent =
     (case availablePipelines (name s) of
        None \<Rightarrow> runStages content availablePipelines toolName strategyName ss currentContent
      | Some pipelineFn \<Rightarrow>
          (case pipelineFn content (name s) toolName strategyName (params s) of
             Content c \<Rightarrow> runStages content availablePipelines toolName strategyName ss c
           | Void \<Rightarrow> runStages content availablePipelines toolName strategyName ss currentContent
           | Throws \<Rightarrow> runStages content availablePipelines toolName strategyName ss currentContent))"

definition executePipelines :: "string \<Rightarrow> string \<Rightarrow> registry \<Rightarrow> string \<Rightarrow> string \<Rightarrow> string" where
  "executePipelines content pipelinesStr availablePipelines toolName strategyName =
     runStages content availablePipelines toolName strategyName
       (parsePipelineString pipelinesStr) content"

section \<open>The visibility filter: \<^verbatim>\<open>processVisibility\<close>\<close>

text \<open>Facts about \<open>indexOf\<close> that the termination proofs of this section need.\<close>

lemma startsWith_prefix: "startsWith s p \<longleftrightarrow> prefix p s"
  by (induction s p rule: startsWith.induct) auto

lemma startsWith_length: "startsWith s p \<Longrightarrow> length p \<le> length s"
  by (simp add: startsWith_prefix prefix_length_le)

lemma findFrom_Some:
  "findFrom p s k = Some i \<Longrightarrow> k \<le> i \<and> i - k + length p \<le> length s \<and> startsWith (drop (i - k) s) p"
proof (induction s arbitrary: k)
  case Nil
  then show ?case by (auto split: if_splits)
next
  case (Cons c cs)
  show ?case
  proof (cases "startsWith (c # cs) p")
    case True
    with Cons.prems startsWith_length[OF True] show ?thesis by simp
  next
    case False
    with Cons.prems have f: "findFrom p cs (Suc k) = Some i" by simp
    from Cons.IH[OF f] have le: "Suc k \<le> i" by simp
    then have eq: "i - k = Suc (i - Suc k)" by arith
    from Cons.IH[OF f] le show ?thesis unfolding eq by simp
  qed
qed

lemma indexOfFrom_Some:
  assumes "indexOfFrom s p from = Some i"
  shows "min from (length s) \<le> i" and "i + length p \<le> length s" and "startsWith (drop i s) p"
proof -
  let ?k = "min from (length s)"
  from assms have f: "findFrom p (drop ?k s) ?k = Some i" by (simp add: indexOfFrom_def Let_def)
  from findFrom_Some[OF f] show "?k \<le> i" and "i + length p \<le> length s" and "startsWith (drop i s) p"
    by auto
qed

text \<open>The two markers of a filter region.\<close>

definition TAG_OPEN_START :: string where
  "TAG_OPEN_START = ''<content-factory-filter''"

definition TAG_CLOSE :: string where
  "TAG_CLOSE = ''</content-factory-filter>''"

text \<open>
  The \<^verbatim>\<open>while\<close> loop that looks for the closing tag matching the first opening tag.
  Its variables are \<^verbatim>\<open>depth\<close> and \<^verbatim>\<open>cursor\<close>; the result is \<^verbatim>\<open>closingIndex\<close>, with
  \<open>None\<close> for \<open>-1\<close>. An opening marker counts when it lies before the next closing
  marker; \<open>the\<close> is applied only to an index that the test before it has found.
\<close>

function findClosing :: "string \<Rightarrow> int \<Rightarrow> nat \<Rightarrow> nat option" where
  "findClosing text depth cursor =
     (if cursor < length text then
        (case indexOfFrom text TAG_CLOSE cursor of
           None \<Rightarrow> None
         | Some nextClose \<Rightarrow>
             (if (case indexOfFrom text TAG_OPEN_START cursor of
                    None \<Rightarrow> False | Some nextOpen \<Rightarrow> nextOpen < nextClose)
              then findClosing text (depth + 1)
                     (the (indexOfFrom text TAG_OPEN_START cursor) + length TAG_OPEN_START)
              else if depth - 1 = 0 then Some nextClose
              else findClosing text (depth - 1) (nextClose + length TAG_CLOSE)))
      else None)"
  by pat_completeness auto
termination
proof (relation "measure (\<lambda>(t, depth, cursor). length t - cursor)", goal_cases)
  case 1
  show ?case by simp
next
  case (2 t d cur nc)
  then obtain nextOpen where n: "indexOfFrom t TAG_OPEN_START cur = Some nextOpen"
    by (auto split: option.splits)
  from indexOfFrom_Some(1)[OF n] 2(1) have "cur \<le> nextOpen" by simp
  with 2(1) n show ?case by (simp add: TAG_OPEN_START_def)
next
  case (3 t d cur nc)
  from indexOfFrom_Some(1)[OF 3(2)] 3(1) have "cur \<le> nc" by simp
  with 3(1) show ?case by (simp add: TAG_CLOSE_def)
qed

declare findClosing.simps [simp del]

lemma findClosing_Some:
  "findClosing t d c = Some ci \<Longrightarrow> c \<le> ci \<and> ci + length TAG_CLOSE \<le> length t \<and> startsWith (drop ci t) TAG_CLOSE"
proof (induction t d c rule: findClosing.induct)
  case (1 t d c)
  from "1.prems" have lt: "c < length t"
    by (subst (asm) findClosing.simps) (simp split: if_splits)
  from "1.prems" lt obtain nc where nc: "indexOfFrom t TAG_CLOSE c = Some nc"
    by (subst (asm) findClosing.simps) (auto split: option.splits)
  note close = indexOfFrom_Some[OF nc]
  from close(1) lt have cnc: "c \<le> nc" by simp
  let ?op = "(case indexOfFrom t TAG_OPEN_START c of None \<Rightarrow> False | Some nextOpen \<Rightarrow> nextOpen < nc)"
  show ?case
  proof (cases ?op)
    case True
    then obtain no where no: "indexOfFrom t TAG_OPEN_START c = Some no"
      by (auto split: option.splits)
    from indexOfFrom_Some(1)[OF no] lt have cno: "c \<le> no" by simp
    from "1.prems" lt nc True
    have "findClosing t (d + 1) (the (indexOfFrom t TAG_OPEN_START c) + length TAG_OPEN_START) = Some ci"
      by (subst (asm) findClosing.simps) simp
    from "1.IH"(1)[OF lt nc True this] no cno show ?thesis by simp
  next
    case False
    show ?thesis
    proof (cases "d - 1 = 0")
      case True
      with "1.prems" lt nc False have "ci = nc"
        by (subst (asm) findClosing.simps) simp
      with close cnc show ?thesis by simp
    next
      case d: False
      from "1.prems" lt nc False d
      have "findClosing t (d - 1) (nc + length TAG_CLOSE) = Some ci"
        by (subst (asm) findClosing.simps) simp
      from "1.IH"(2)[OF lt nc False d this] cnc show ?thesis by simp
    qed
  qed
qed

text \<open>
  The attribute patterns \<^verbatim>\<open>/include\s*=\s*["']([^"']+)["']/\<close> and
  \<^verbatim>\<open>/exclude\s*=\s*["']([^"']+)["']/\<close>. \<open>matchAttrValue\<close> matches
  \<^verbatim>\<open>\s*=\s*["']([^"']+)["']\<close> at the start of a string and returns the captured value
  and the text after the match. Each greedy quantifier is followed by a character outside
  its class, so taking the longest run is the only way the pattern can match.
  \<open>matchAttr\<close> is \<^verbatim>\<open>String.prototype.match\<close>: the first position where the pattern matches.
\<close>

definition is_quote :: "char \<Rightarrow> bool" where
  "is_quote c \<longleftrightarrow> c = CHR 0x22 \<or> c = CHR 0x27"

definition matchAttrValue :: "string \<Rightarrow> (string \<times> string) option" where
  "matchAttrValue s =
     (case dropWhile is_space s of
        [] \<Rightarrow> None
      | c # s2 \<Rightarrow>
          if c = CHR ''='' then
            (case dropWhile is_space s2 of
               [] \<Rightarrow> None
             | q # s4 \<Rightarrow>
                 if is_quote q then
                   (let v = takeWhile (\<lambda>c. \<not> is_quote c) s4;
                        s5 = dropWhile (\<lambda>c. \<not> is_quote c) s4
                    in if v \<noteq> [] \<and> s5 \<noteq> [] then Some (v, tl s5) else None)
                 else None)
          else None)"

fun matchAttr :: "string \<Rightarrow> string \<Rightarrow> string option" where
  "matchAttr attr [] = None"
| "matchAttr attr (c # cs) =
     (case (if startsWith (c # cs) attr then matchAttrValue (drop (length attr) (c # cs)) else None) of
        Some (v, rest) \<Rightarrow> Some v
      | None \<Rightarrow> matchAttr attr cs)"

text \<open>The lists \<^verbatim>\<open>includes\<close> and \<^verbatim>\<open>excludes\<close> and the decision \<^verbatim>\<open>shouldKeep\<close>.\<close>

definition toolList :: "string option \<Rightarrow> string list" where
  "toolList m = (case m of None \<Rightarrow> [] | Some v \<Rightarrow> map trim (split v CHR '',''))"

definition includesOf :: "string \<Rightarrow> string list" where
  "includesOf openingTagStr = toolList (matchAttr ''include'' openingTagStr)"

definition excludesOf :: "string \<Rightarrow> string list" where
  "excludesOf openingTagStr = toolList (matchAttr ''exclude'' openingTagStr)"

definition shouldKeep :: "string \<Rightarrow> string \<Rightarrow> bool" where
  "shouldKeep openingTagStr currentTool =
     (let includes = includesOf openingTagStr;
          excludes = excludesOf openingTagStr;
          isIncluded = (length includes = 0 \<or> currentTool \<in> set includes);
          isExcluded = (currentTool \<in> set excludes)
      in isIncluded \<and> \<not> isExcluded)"

text \<open>\<^verbatim>\<open>openingTagEnd + 1\<close>, which is \<open>0\<close> when \<^verbatim>\<open>indexOf\<close> returns \<open>-1\<close>.\<close>

definition openingTagEnd1 :: "string \<Rightarrow> nat \<Rightarrow> nat" where
  "openingTagEnd1 t startIndex =
     (case indexOfFrom t ''>'' startIndex of None \<Rightarrow> 0 | Some openingTagEnd \<Rightarrow> openingTagEnd + 1)"

lemma inner_shorter:
  assumes si: "indexOf t TAG_OPEN_START = Some startIndex"
    and ci: "findClosing t 0 startIndex = Some closingIndex"
  shows "length (substring t (openingTagEnd1 t startIndex) closingIndex) < length t"
proof -
  note cl = findClosing_Some[OF ci]
  from si have si': "indexOfFrom t TAG_OPEN_START 0 = Some startIndex" by (simp add: indexOf_def)
  note op = indexOfFrom_Some[OF si']
  from cl have lt: "closingIndex < length t" by (simp add: TAG_CLOSE_def)
  have pos: "0 < closingIndex"
  proof (rule ccontr)
    assume "\<not> 0 < closingIndex"
    with cl have z: "closingIndex = 0" "startIndex = 0" by simp_all
    from op(3) cl z have "startsWith t TAG_OPEN_START" "startsWith t TAG_CLOSE" by simp_all
    then show False
      by (cases t; cases "tl t") (auto simp: TAG_OPEN_START_def TAG_CLOSE_def)
  qed
  show ?thesis
  proof (cases "indexOfFrom t ''>'' startIndex")
    case None
    with lt show ?thesis by (simp add: openingTagEnd1_def substring_def Let_def)
  next
    case (Some e)
    with lt pos show ?thesis
      by (auto simp: openingTagEnd1_def substring_def Let_def min_def max_def)
  qed
qed

function processVisibility :: "string \<Rightarrow> string \<Rightarrow> string" where
  "processVisibility t currentTool =
     (case indexOf t TAG_OPEN_START of
        None \<Rightarrow> t
      | Some startIndex \<Rightarrow>
          (case findClosing t 0 startIndex of
             None \<Rightarrow> t
           | Some closingIndex \<Rightarrow>
               (let openingTagStr = substring t startIndex (openingTagEnd1 t startIndex);
                    innerContentRaw = substring t (openingTagEnd1 t startIndex) closingIndex;
                    replacement = (if shouldKeep openingTagStr currentTool
                                   then processVisibility innerContentRaw currentTool else []);
                    remainingText = drop (closingIndex + length TAG_CLOSE) t;
                    processedRemaining = processVisibility remainingText currentTool
                in take startIndex t @ replacement @ processedRemaining)))"
  by pat_completeness auto

termination
proof (relation "measure (\<lambda>(t, tool). length t)", goal_cases)
  case 1
  show ?case by simp
next
  case (2 t tool si ci a b)
  from inner_shorter[OF 2(1) 2(2)] 2(4) show ?case by simp
next
  case (3 t tool si ci a b c r)
  have pos: "0 < length TAG_CLOSE" by (simp add: TAG_CLOSE_def)
  from findClosing_Some[OF 3(2)] have "ci + length TAG_CLOSE \<le> length t" by simp
  with pos have "length t - (ci + length TAG_CLOSE) < length t" by linarith
  with 3(6) show ?case by simp
qed

declare processVisibility.simps [simp del]

section \<open>Paths: \<^verbatim>\<open>resolvePath\<close> and \<^verbatim>\<open>Engine.resolveFilePath\<close>\<close>

text \<open>
  \<^verbatim>\<open>path.isAbsolute\<close>, \<^verbatim>\<open>path.resolve\<close> and \<^verbatim>\<open>path.dirname\<close> belong to Node's \<^verbatim>\<open>path\<close>
  module, not to the repository. They are modelled here for POSIX on the algorithm of
  Node's \<^verbatim>\<open>lib/path.js\<close>. \<^verbatim>\<open>path.resolve\<close> goes through its arguments from the right, and
  last through the working directory, until the path is absolute, then drops empty and
  \<^verbatim>\<open>.\<close> segments and resolves \<^verbatim>\<open>..\<close> segments. The working directory \<open>cwd\<close> stands for
  \<^verbatim>\<open>process.cwd()\<close>, an absolute path.
\<close>

definition isAbsolute :: "string \<Rightarrow> bool" where
  "isAbsolute p = startsWith p ''/''"

fun normalizeSegments :: "string list \<Rightarrow> string list \<Rightarrow> string list" where
  "normalizeSegments [] acc = rev acc"
| "normalizeSegments (s # ss) acc =
     (if s = [] \<or> s = ''.'' then normalizeSegments ss acc
      else if s = ''..'' then normalizeSegments ss (tl acc)
      else normalizeSegments ss (s # acc))"

fun joinPath :: "string list \<Rightarrow> string" where
  "joinPath [] = []"
| "joinPath [s] = s"
| "joinPath (s # r # rs) = s @ ''/'' @ joinPath (r # rs)"

fun resolveLoop :: "string list \<Rightarrow> string \<Rightarrow> string" where
  "resolveLoop [] resolvedPath = resolvedPath"
| "resolveLoop (p # ps) resolvedPath =
     (if p = [] then resolveLoop ps resolvedPath
      else if isAbsolute p then p @ ''/'' @ resolvedPath
      else resolveLoop ps (p @ ''/'' @ resolvedPath))"

definition path_resolve :: "string \<Rightarrow> string list \<Rightarrow> string" where
  "path_resolve cwd args =
     CHR ''/'' # joinPath (normalizeSegments (split (resolveLoop (rev args @ [cwd]) []) CHR ''/'') [])"

text \<open>
  \<^verbatim>\<open>path.dirname\<close>: trailing slashes are skipped, then the last component; the slash
  before it, at index \<open>end\<close>, ends the result. The scan of the source stops at index 1.
\<close>

definition dirname :: "string \<Rightarrow> string" where
  "dirname p =
     (if p = [] then ''.''
      else
        (let hasRoot = (hd p = CHR ''/'');
             r = dropWhile (\<lambda>c. c = CHR ''/'') (rev (tl p));
             r' = dropWhile (\<lambda>c. c \<noteq> CHR ''/'') r;
             end = length r'
         in if r' = [] then (if hasRoot then ''/'' else ''.'')
            else if hasRoot \<and> end = 1 then ''//''
            else take end p))"


text \<open>\<^verbatim>\<open>Preprocessor.resolvePath\<close>, for the path literal of an include directive.\<close>

definition resolvePath :: "string \<Rightarrow> string \<Rightarrow> string \<Rightarrow> string \<Rightarrow> string" where
  "resolvePath cwd filePath rootPath currentFilePath =
     (if isAbsolute filePath then filePath
      else if startsWith filePath ''@/'' then path_resolve cwd [rootPath, drop 2 filePath]
      else (let currentDir = dirname currentFilePath in path_resolve cwd [currentDir, filePath]))"

text \<open>\<^verbatim>\<open>Engine.resolveFilePath\<close>, for the path given to \<^verbatim>\<open>readFile\<close>; \<open>root\<close> is
  \<^verbatim>\<open>this.root\<close>.\<close>

definition resolveFilePath :: "string \<Rightarrow> string \<Rightarrow> string \<Rightarrow> string" where
  "resolveFilePath cwd root filePath =
     (if isAbsolute filePath then filePath
      else if startsWith filePath ''@/'' then path_resolve cwd [root, drop 2 filePath]
      else path_resolve cwd [root, filePath])"

section \<open>Include directives: the pattern \<^verbatim>\<open>includeRegex\<close>\<close>

text \<open>
  The pattern is
  \<^verbatim>\<open><content-factory-include-file\s+path\s*=\s*["']([^"']+)["'](?:\s+pipelines\s*=\s*["']([^"']+)["'])?\s*(?:\/>|><\/content-factory-include-file>)\<close>.
  \<open>matchInclude s\<close> matches it at the start of \<open>s\<close>. As in the attribute patterns
  of the filter, every greedy run is followed by a character outside its class. The
  optional group is tried first; when the tag does not end after it, the matcher goes
  back and tries the end of the tag without the group.
\<close>

record include_match =
  fullMatch :: string
  filePath :: string
  pipelinesStr :: "string option"

definition INCLUDE_OPEN :: string where
  "INCLUDE_OPEN = ''<content-factory-include-file''"

definition INCLUDE_CLOSE :: string where
  "INCLUDE_CLOSE = ''></content-factory-include-file>''"

definition matchPipelinesAttr :: "string \<Rightarrow> (string \<times> string) option" where
  "matchPipelinesAttr s =
     (let s1 = dropWhile is_space s in
      if s1 \<noteq> s \<and> startsWith s1 ''pipelines''
      then matchAttrValue (drop (length ''pipelines'') s1) else None)"

definition matchTagEnd :: "string \<Rightarrow> string option" where
  "matchTagEnd s =
     (let s1 = dropWhile is_space s in
      if startsWith s1 ''/>'' then Some (drop (length ''/>'') s1)
      else if startsWith s1 INCLUDE_CLOSE then Some (drop (length INCLUDE_CLOSE) s1)
      else None)"

definition matchInclude :: "string \<Rightarrow> include_match option" where
  "matchInclude s =
     (if startsWith s INCLUDE_OPEN then
        (let s0 = drop (length INCLUDE_OPEN) s; s1 = dropWhile is_space s0 in
         if s1 \<noteq> s0 \<and> startsWith s1 ''path'' then
           (case matchAttrValue (drop (length ''path'') s1) of
              None \<Rightarrow> None
            | Some (path, s2) \<Rightarrow>
                (case (case matchPipelinesAttr s2 of
                         None \<Rightarrow> None
                       | Some (pipes, s3) \<Rightarrow>
                           (case matchTagEnd s3 of
                              None \<Rightarrow> None
                            | Some rest \<Rightarrow> Some (Some pipes, rest))) of
                   Some (pipes, rest) \<Rightarrow>
                     Some \<lparr>fullMatch = take (length s - length rest) s, filePath = path,
                           pipelinesStr = pipes\<rparr>
                 | None \<Rightarrow>
                     (case matchTagEnd s2 of
                        None \<Rightarrow> None
                      | Some rest \<Rightarrow>
                          Some \<lparr>fullMatch = take (length s - length rest) s, filePath = path,
                                pipelinesStr = None\<rparr>)))
         else None)
      else None)"

text \<open>
  The loop \<^verbatim>\<open>while ((match = includeRegex.exec(text)) !== null)\<close> with the flag \<^verbatim>\<open>g\<close>:
  all matches from left to right, each search starting where the previous match ended.
  \<open>skip\<close> counts the characters of the last match that are still to be passed.
\<close>

fun scanIncludes :: "nat \<Rightarrow> string \<Rightarrow> include_match list" where
  "scanIncludes skip [] = []"
| "scanIncludes skip (c # cs) =
     (if 0 < skip then scanIncludes (skip - 1) cs
      else (case matchInclude (c # cs) of
              None \<Rightarrow> scanIncludes 0 cs
            | Some m \<Rightarrow> m # scanIncludes (length (fullMatch m) - 1) cs))"

section \<open>The directive processor: \<^verbatim>\<open>process\<close> and \<^verbatim>\<open>processIncludes\<close>\<close>

text \<open>
  The options that stay the same through one call of \<^verbatim>\<open>process\<close> and all the calls
  below it are collected in \<open>env\<close>. \<open>readFile e p\<close> is the result of
  \<^verbatim>\<open>fs.readFile(p, "utf-8")\<close>, with \<open>None\<close> when the read throws.

  The state that the calls share is the set \<^verbatim>\<open>visitedFiles\<close>, a JavaScript \<^verbatim>\<open>Set\<close>, kept
  here as the list of its elements in insertion order (the order of \<^verbatim>\<open>Array.from\<close>).
  The field \<open>reads\<close> is not in the source: it records the path of every call of
  \<^verbatim>\<open>fs.readFile\<close>, in order, so that statements about file reads can be made.

  The only exception that leaves \<^verbatim>\<open>process\<close> is the \<^verbatim>\<open>Error\<close> thrown at its entry; it
  is the value \<open>Inl (CircularDependency path chain)\<close>. Messages written to the console
  are not modelled.
\<close>

record env =
  readFile :: "string \<Rightarrow> string option"
  cwd :: string
  toolName :: string
  strategyName :: string
  pipelines :: "registry option"
  rootPath :: string

record pstate =
  visitedFiles :: "string list"
  reads :: "string list"

datatype error = CircularDependency string "string list"

type_synonym outcome = "(error + string) \<times> pstate"

text \<open>
  The loop \<^verbatim>\<open>for (const {fullMatch, filePath, pipelinesStr} of matches)\<close> of
  \<^verbatim>\<open>processIncludes\<close>. \<open>recur\<close> is the recursive call of \<^verbatim>\<open>process\<close>; an error it
  returns leaves the loop at once, as the exception does.
\<close>

fun includesLoop ::
  "(string \<Rightarrow> string \<Rightarrow> pstate \<Rightarrow> outcome option) \<Rightarrow> env \<Rightarrow> string \<Rightarrow>
   include_match list \<Rightarrow> string \<Rightarrow> pstate \<Rightarrow> outcome option" where
  "includesLoop recur e currentFilePath [] t st = Some (Inr t, st)"
| "includesLoop recur e currentFilePath (m # ms) t st =
     (let resolvedPath = resolvePath (cwd e) (filePath m) (rootPath e) currentFilePath;
          st1 = st\<lparr>reads := reads st @ [resolvedPath]\<rparr>
      in case readFile e resolvedPath of
           None \<Rightarrow>
             includesLoop recur e currentFilePath ms
               (replace t (fullMatch m) (''[MISSING FILE: '' @ filePath m @ '']'')) st1
         | Some includedContent \<Rightarrow>
             (case recur includedContent resolvedPath st1 of
                None \<Rightarrow> None
              | Some (Inl err, st2) \<Rightarrow> Some (Inl err, st2)
              | Some (Inr processedContent, st2) \<Rightarrow>
                  (let processedContent' =
                         (case pipelinesStr m of
                            None \<Rightarrow> processedContent
                          | Some ps \<Rightarrow>
                              (case pipelines e of
                                 None \<Rightarrow> processedContent
                               | Some availablePipelines \<Rightarrow>
                                   if ps = [] then processedContent
                                   else executePipelines processedContent ps availablePipelines
                                          (toolName e) (strategyName e)))
                   in includesLoop recur e currentFilePath ms
                        (replace t (fullMatch m) processedContent') st2)))"

text \<open>
  \<^verbatim>\<open>process\<close>. The first argument bounds the depth of nested inclusion; \<open>None\<close> means
  that the bound was reached. The source has no such bound.
  The \<^verbatim>\<open>visitedFiles.delete\<close> of the source comes after the \<^verbatim>\<open>await\<close> of
  \<^verbatim>\<open>processIncludes\<close> and is not in a \<^verbatim>\<open>finally\<close> block: it is skipped when
  \<^verbatim>\<open>processIncludes\<close> throws.
\<close>

primrec process :: "nat \<Rightarrow> env \<Rightarrow> string \<Rightarrow> string \<Rightarrow> pstate \<Rightarrow> outcome option" where
  "process 0 e content currentFilePath st = None"
| "process (Suc n) e content currentFilePath st =
     (let normalizedCurrentPath = path_resolve (cwd e) [currentFilePath] in
      if normalizedCurrentPath \<in> set (visitedFiles st)
      then Some (Inl (CircularDependency normalizedCurrentPath (visitedFiles st)), st)
      else
        (let st1 = st\<lparr>visitedFiles := visitedFiles st @ [normalizedCurrentPath]\<rparr>;
             t = processVisibility content (toolName e)
         in case includesLoop (process n e) e normalizedCurrentPath (scanIncludes 0 t) t st1 of
              None \<Rightarrow> None
            | Some (Inl err, st2) \<Rightarrow> Some (Inl err, st2)
            | Some (Inr t', st2) \<Rightarrow>
                Some (Inr t', st2\<lparr>visitedFiles := removeAll normalizedCurrentPath (visitedFiles st2)\<rparr>)))"

section \<open>Notions used in the statements\<close>

text \<open>
  The value of the counter \<^verbatim>\<open>depth\<close> of \<^verbatim>\<open>parsePipelineString\<close> after a string, when it
  was \<open>0\<close> before: the number of \<^verbatim>\<open>(\<close> minus the number of \<^verbatim>\<open>)\<close>. A comma is at
  top level when the counter is \<open>0\<close> there.
\<close>

definition parenDelta :: "char \<Rightarrow> int" where
  "parenDelta c = (if c = CHR ''('' then 1 else if c = CHR '')'' then - 1 else 0)"

fun parenDepth :: "string \<Rightarrow> int" where
  "parenDepth [] = 0"
| "parenDepth (c # cs) = parenDelta c + parenDepth cs"

text \<open>The last \<^verbatim>\<open>pushCurrent()\<close> of \<^verbatim>\<open>parsePipelineString\<close>, on the state the loop left.\<close>

definition finish :: "stage list \<times> string \<Rightarrow> stage list" where
  "finish rc = fst (pushCurrent (fst rc) (snd rc))"

text \<open>
  The contents returned by the stages of a chain when each stage is given the same
  text \<open>original\<close>: the stages that are not registered, return nothing or throw
  contribute nothing.
\<close>

fun stageOutputs :: "string \<Rightarrow> registry \<Rightarrow> string \<Rightarrow> string \<Rightarrow> stage list \<Rightarrow> string list" where
  "stageOutputs original reg tool strategy [] = []"
| "stageOutputs original reg tool strategy (s # ss) =
     (case reg (name s) of
        None \<Rightarrow> stageOutputs original reg tool strategy ss
      | Some f \<Rightarrow>
          (case f original (name s) tool strategy (params s) of
             Content c \<Rightarrow> c # stageOutputs original reg tool strategy ss
           | Void \<Rightarrow> stageOutputs original reg tool strategy ss
           | Throws \<Rightarrow> stageOutputs original reg tool strategy ss))"

text \<open>A registry for the examples: two pipelines that return content, one that returns
  nothing and one that throws.\<close>

definition demo_registry :: registry where
  "demo_registry =
     [''append-world'' \<mapsto> (\<lambda>content pipelineName tool strategy ps. Content (content @ '' world'')),
      ''twice'' \<mapsto> (\<lambda>content pipelineName tool strategy ps. Content (content @ content)),
      ''noop'' \<mapsto> (\<lambda>content pipelineName tool strategy ps. Void),
      ''fail'' \<mapsto> (\<lambda>content pipelineName tool strategy ps. Throws)]"

text \<open>A document with one filter region that names the tool \<open>claude\<close> in both
  attributes, and the opening tag of the region.\<close>

definition both_doc :: string where
  "both_doc = ''A<content-factory-filter include=\"claude, roo\" exclude=\"claude\">Content</content-factory-filter>B''"

definition both_tag :: string where
  "both_tag = ''<content-factory-filter include=\"claude, roo\" exclude=\"claude\">''"

text \<open>
  A file system, an environment and a starting state for the examples. The project root
  is \<^verbatim>\<open>/proj\<close>. The files \<^verbatim>\<open>a.md\<close> and \<^verbatim>\<open>b.md\<close> include each other, \<^verbatim>\<open>self.md\<close> includes
  itself, \<^verbatim>\<open>wrap.md\<close> includes \<^verbatim>\<open>self.md\<close>, and the content of \<^verbatim>\<open>amp.md\<close> contains the
  replacement pattern \<^verbatim>\<open>$&\<close>.
\<close>

definition demo_fs :: "string \<Rightarrow> string option" where
  "demo_fs = map_of
     [(''/proj/docs/shared.md'', ''Shared''),
      (''/proj/docs/a.md'', ''A-<content-factory-include-file path=\"./b.md\" />''),
      (''/proj/docs/b.md'', ''B-<content-factory-include-file path=\"./a.md\" />''),
      (''/proj/docs/self.md'', ''Content-<content-factory-include-file path=\"./self.md\" />''),
      (''/proj/docs/wrap.md'', ''W-<content-factory-include-file path=\"./self.md\" />''),
      (''/proj/docs/amp.md'', ''<$&>''),
      (''/proj/docs/outer.md'', ''O-<content-factory-include-file path=\"inner.md\" />''),
      (''/proj/docs/inner.md'', ''inner of docs''),
      (''/proj/inner.md'', ''inner of root'')]"

definition demo_env :: env where
  "demo_env = \<lparr>readFile = demo_fs, cwd = ''/home/user'', toolName = ''claude'',
                strategyName = ''default'', pipelines = Some demo_registry, rootPath = ''/proj''\<rparr>"

definition fresh :: pstate where
  "fresh = \<lparr>visitedFiles = [], reads = []\<rparr>"

text \<open>
  Include tags for the examples: one with \<^verbatim>\<open>pipelines\<close> written before \<^verbatim>\<open>path\<close>, the same
  with \<^verbatim>\<open>path\<close> first, the directive that includes \<^verbatim>\<open>amp.md\<close>, and a document whose
  first directive names a file that does not exist and has \<^verbatim>\<open>$$\<close> in its name.
\<close>

definition pipelines_first :: string where
  "pipelines_first = ''<content-factory-include-file pipelines=\"twice\" path=\"./shared.md\" />''"

definition path_first :: string where
  "path_first = ''<content-factory-include-file path=\"./shared.md\" pipelines=\"twice\" />''"

definition amp_directive :: string where
  "amp_directive = ''<content-factory-include-file path=\"./amp.md\" />''"

definition missing_dollar_doc :: string where
  "missing_dollar_doc = ''X<content-factory-include-file path=\"./no$$pe.md\" />Y<content-factory-include-file path=\"./shared.md\" />''"

text \<open>
  What a call does to the set \<^verbatim>\<open>visitedFiles\<close>: after a call that returns content the set
  is the one at entry, after a call that fails the set at entry is an initial part of
  it.
\<close>

definition kept_or_grown :: "pstate \<Rightarrow> outcome \<Rightarrow> bool" where
  "kept_or_grown st out =
     (case fst out of
        Inr t \<Rightarrow> visitedFiles (snd out) = visitedFiles st
      | Inl err \<Rightarrow> prefix (visitedFiles st) (visitedFiles (snd out)))"

text \<open>
  The log of reads has no influence on a call: a call that returns from a state returns
  the same from every state with the same \<^verbatim>\<open>visitedFiles\<close>, and appends the same paths
  to the log.
\<close>

definition frame_ok :: "(pstate \<Rightarrow> outcome option) \<Rightarrow> bool" where
  "frame_ok f \<longleftrightarrow>
     (\<forall>st out. f st = Some out \<longrightarrow>
        (\<exists>new. reads (snd out) = reads st @ new \<and>
           (\<forall>st0. visitedFiles st0 = visitedFiles st \<longrightarrow>
                  f st0 = Some (fst out, (snd out)\<lparr>reads := reads st0 @ new\<rparr>))))"

text \<open>
  Documents for the examples: a directive that includes \<^verbatim>\<open>shared.md\<close>; one that
  includes \<^verbatim>\<open>wrap.md\<close>, with the match that the scan finds for it; a document that
  includes \<^verbatim>\<open>self.md\<close>; and two documents that differ only inside a filter region for
  the tool \<open>roo\<close>, where one includes \<^verbatim>\<open>inner.md\<close> and the other \<^verbatim>\<open>self.md\<close>. The
  environment \<open>roo_env\<close> is \<open>demo_env\<close> for the tool \<open>roo\<close>.
\<close>

definition shared_directive :: string where
  "shared_directive = ''<content-factory-include-file path=\"./shared.md\" />''"

definition wrap_directive :: string where
  "wrap_directive = ''<content-factory-include-file path=\"./wrap.md\" />''"

definition wrap_match :: include_match where
  "wrap_match = \<lparr>fullMatch = wrap_directive, filePath = ''./wrap.md'', pipelinesStr = None\<rparr>"

definition self_doc :: string where
  "self_doc = ''<content-factory-include-file path=\"./self.md\" />''"

definition dropped_inner_doc :: string where
  "dropped_inner_doc = ''A<content-factory-filter include=\"roo\"><content-factory-include-file path=\"./inner.md\" /></content-factory-filter><content-factory-include-file path=\"./shared.md\" />''"

definition dropped_self_doc :: string where
  "dropped_self_doc = ''A<content-factory-filter include=\"roo\"><content-factory-include-file path=\"./self.md\" /></content-factory-filter><content-factory-include-file path=\"./shared.md\" />''"

definition roo_env :: env where
  "roo_env = demo_env\<lparr>toolName := ''roo''\<rparr>"

text \<open>The normalized paths of the files that can be read.\<close>

definition knownPaths :: "env \<Rightarrow> string set" where
  "knownPaths e = (\<lambda>p. path_resolve (cwd e) [p]) ` dom (readFile e)"

text \<open>
  Two contents that differ only inside filter regions that are dropped for the tool (and
  in the opening tags of such regions): either they are equal, or their first regions
  start at the same index after the same text and are both dropped, or are both kept
  with inner texts that are so related, and the texts after the regions are so related.
\<close>

inductive same_outside_dropped :: "string \<Rightarrow> string \<Rightarrow> string \<Rightarrow> bool" for tool :: string where
  same: "same_outside_dropped tool c c"
| dropped:
    "indexOf c TAG_OPEN_START = Some si \<Longrightarrow> findClosing c 0 si = Some ci \<Longrightarrow>
     \<not> shouldKeep (substring c si (openingTagEnd1 c si)) tool \<Longrightarrow>
     indexOf c' TAG_OPEN_START = Some si \<Longrightarrow> findClosing c' 0 si = Some ci' \<Longrightarrow>
     \<not> shouldKeep (substring c' si (openingTagEnd1 c' si)) tool \<Longrightarrow>
     take si c' = take si c \<Longrightarrow>
     same_outside_dropped tool (drop (ci + length TAG_CLOSE) c) (drop (ci' + length TAG_CLOSE) c') \<Longrightarrow>
     same_outside_dropped tool c c'"
| kept:
    "indexOf c TAG_OPEN_START = Some si \<Longrightarrow> findClosing c 0 si = Some ci \<Longrightarrow>
     shouldKeep (substring c si (openingTagEnd1 c si)) tool \<Longrightarrow>
     indexOf c' TAG_OPEN_START = Some si \<Longrightarrow> findClosing c' 0 si = Some ci' \<Longrightarrow>
     shouldKeep (substring c' si (openingTagEnd1 c' si)) tool \<Longrightarrow>
     take si c' = take si c \<Longrightarrow>
     same_outside_dropped tool (substring c (openingTagEnd1 c si) ci)
       (substring c' (openingTagEnd1 c' si) ci') \<Longrightarrow>
     same_outside_dropped tool (drop (ci + length TAG_CLOSE) c) (drop (ci' + length TAG_CLOSE) c') \<Longrightarrow>
     same_outside_dropped tool c c'"

code_pred (modes: i \<Rightarrow> i \<Rightarrow> i \<Rightarrow> bool) same_outside_dropped .

text \<open>
  The nesting depth after a string, starting from depth \<open>k\<close>, where a \<^verbatim>\<open>)\<close> at depth
  \<open>0\<close> is passed over; and the strings in which every \<^verbatim>\<open>)\<close> has a \<^verbatim>\<open>(\<close> open before it.
\<close>

fun nestingFrom :: "nat \<Rightarrow> string \<Rightarrow> nat" where
  "nestingFrom k [] = k"
| "nestingFrom k (c # cs) =
     nestingFrom (if c = CHR ''('' then k + 1 else if c = CHR '')'' then k - 1 else k) cs"

fun noStrayClose :: "nat \<Rightarrow> string \<Rightarrow> bool" where
  "noStrayClose k [] = True"
| "noStrayClose k (c # cs) =
     (if c = CHR ''('' then noStrayClose (k + 1) cs
      else if c = CHR '')'' then 0 < k \<and> noStrayClose (k - 1) cs
      else noStrayClose k cs)"

text \<open>
  The replacement strings that \<^verbatim>\<open>String.replace\<close> inserts as they are: those without
  \<^verbatim>\<open>$$\<close>, \<^verbatim>\<open>$&\<close>, \<^verbatim>\<open>$`\<close> and \<^verbatim>\<open>$'\<close>.
\<close>

fun plainReplacement :: "string \<Rightarrow> bool" where
  "plainReplacement [] = True"
| "plainReplacement [c] = True"
| "plainReplacement (c # d # r) =
     (\<not> (c = CHR ''$'' \<and> (d = CHR ''$'' \<or> d = CHR ''&'' \<or> d = CHR 0x60 \<or> d = CHR 0x27))
      \<and> plainReplacement (d # r))"

text \<open>The content that replaces a directive: what the recursive call returns, passed
  through the pipelines of the directive as \<^verbatim>\<open>processIncludes\<close> does.\<close>

definition afterPipelines :: "env \<Rightarrow> include_match \<Rightarrow> string \<Rightarrow> string" where
  "afterPipelines e m processedContent =
     (case pipelinesStr m of
        None \<Rightarrow> processedContent
      | Some ps \<Rightarrow>
          (case pipelines e of
             None \<Rightarrow> processedContent
           | Some availablePipelines \<Rightarrow>
               if ps = [] then processedContent
               else executePipelines processedContent ps availablePipelines
                      (toolName e) (strategyName e)))"

text \<open>
  The replacement text of a directive in a document with the normalized path
  \<open>includer\<close>, when the visitation set is \<open>v\<close>: the missing-file marker when the file
  cannot be read, the processed content of the file when its own processing succeeds,
  and \<open>None\<close> when that fails.
\<close>

definition includeContent :: "nat \<Rightarrow> env \<Rightarrow> string \<Rightarrow> string list \<Rightarrow> include_match \<Rightarrow> string option" where
  "includeContent n e includer v m =
     (let resolvedPath = resolvePath (cwd e) (filePath m) (rootPath e) includer in
      case readFile e resolvedPath of
        None \<Rightarrow> Some (''[MISSING FILE: '' @ filePath m @ '']'')
      | Some fc \<Rightarrow>
          (case process n e fc resolvedPath \<lparr>visitedFiles = v, reads = []\<rparr> of
             Some (Inr processedContent, st') \<Rightarrow> Some (afterPipelines e m processedContent)
           | Some (Inl err, st') \<Rightarrow> None
           | None \<Rightarrow> None))"

text \<open>
  A text cut at its directives: each item is the text before a directive and the match
  of the directive, \<open>final\<close> is the text after the last one. \<open>withDirectives\<close> is the
  text itself, \<open>withContents f\<close> the text with \<open>f m\<close> in the place of each directive
  \<open>m\<close>. \<open>firstOccurrences\<close> says that, when the directives before it have been
  replaced, the first occurrence of the text of each directive is the directive itself.
\<close>

fun withDirectives :: "(string \<times> include_match) list \<Rightarrow> string \<Rightarrow> string" where
  "withDirectives [] final = final"
| "withDirectives ((seg, m) # xs) final = seg @ fullMatch m @ withDirectives xs final"

fun withContents :: "(include_match \<Rightarrow> string) \<Rightarrow> (string \<times> include_match) list \<Rightarrow> string \<Rightarrow> string" where
  "withContents f [] final = final"
| "withContents f ((seg, m) # xs) final = seg @ f m @ withContents f xs final"

fun firstOccurrences ::
  "(include_match \<Rightarrow> string) \<Rightarrow> string \<Rightarrow> (string \<times> include_match) list \<Rightarrow> string \<Rightarrow> bool" where
  "firstOccurrences f resolved [] final = True"
| "firstOccurrences f resolved ((seg, m) # xs) final =
     (indexOf (resolved @ seg @ fullMatch m @ withDirectives xs final) (fullMatch m)
        = Some (length (resolved @ seg))
      \<and> firstOccurrences f (resolved @ seg @ f m) xs final)"

text \<open>
  An example with three directives: one for \<^verbatim>\<open>inner.md\<close> and two, written differently,
  for the file \<^verbatim>\<open>price.md\<close>, whose content has \<^verbatim>\<open>$\<close> signs but no replacement pattern.
\<close>

definition price_env :: env where
  "price_env = demo_env\<lparr>readFile := (demo_fs(''/proj/docs/price.md'' \<mapsto> ''US$5 and $HOME''))\<rparr>"

definition price_items :: "(string \<times> include_match) list" where
  "price_items =
     [(''see '',
       \<lparr>fullMatch = ''<content-factory-include-file path=\"inner.md\" />'',
          filePath = ''inner.md'', pipelinesStr = None\<rparr>),
      ('': '',
       \<lparr>fullMatch = ''<content-factory-include-file path=\"./price.md\" />'',
          filePath = ''./price.md'', pipelinesStr = None\<rparr>),
      ('' - '',
       \<lparr>fullMatch = ''<content-factory-include-file path=\"price.md\"></content-factory-include-file>'',
          filePath = ''price.md'', pipelinesStr = None\<rparr>)]"

definition price_content :: "include_match \<Rightarrow> string" where
  "price_content m =
     the (includeContent (Suc 0) price_env ''/proj/docs/main.md'' [''/proj/docs/main.md''] m)"

section \<open>Properties of the pipeline parser\<close>

lemma parseLoop_Cons:
  "parseLoop (x # rest) r c d =
     (if x = CHR '','' \<and> d + parenDelta x = 0
      then parseLoop rest (fst (pushCurrent r c)) (snd (pushCurrent r c)) (d + parenDelta x)
      else parseLoop rest r (c @ [x]) (d + parenDelta x))"
  by (cases "pushCurrent r c") (auto simp: parenDelta_def Let_def)

lemma parseLoop_append:
  "parseLoop (a @ b) r c d =
     parseLoop b (fst (parseLoop a r c d)) (snd (parseLoop a r c d)) (d + parenDepth a)"
proof (induction a arbitrary: r c d)
  case Nil
  show ?case by simp
next
  case (Cons x a)
  show ?case
  proof (cases "x = CHR '','' \<and> d + parenDelta x = 0")
    case True
    then have "parseLoop ((x # a) @ b) r c d
        = parseLoop (a @ b) (fst (pushCurrent r c)) (snd (pushCurrent r c)) (d + parenDelta x)"
      and "parseLoop (x # a) r c d
        = parseLoop a (fst (pushCurrent r c)) (snd (pushCurrent r c)) (d + parenDelta x)"
      by (auto simp: parseLoop_Cons simp del: parseLoop.simps(2))
    then show ?thesis by (simp add: Cons.IH add.assoc del: parseLoop.simps(2))
  next
    case False
    then have "parseLoop ((x # a) @ b) r c d = parseLoop (a @ b) r (c @ [x]) (d + parenDelta x)"
      and "parseLoop (x # a) r c d = parseLoop a r (c @ [x]) (d + parenDelta x)"
      by (auto simp: parseLoop_Cons simp del: parseLoop.simps(2))
    then show ?thesis by (simp add: Cons.IH add.assoc del: parseLoop.simps(2))
  qed
qed

lemma dropWhile_Nil_or_hd: "dropWhile P xs = [] \<or> \<not> P (hd (dropWhile P xs))"
  by (induction xs) auto

lemma trim_Nil_iff: "trim c = [] \<longleftrightarrow> (\<forall>x\<in>set c. is_space x)"
proof -
  have "trim c = [] \<longleftrightarrow> (\<forall>x\<in>set (dropWhile is_space c). is_space x)"
    by (simp add: trim_def dropWhile_eq_Nil_conv)
  also have "\<dots> \<longleftrightarrow> dropWhile is_space c = []"
  proof (rule iffI)
    assume a: "\<forall>x\<in>set (dropWhile is_space c). is_space x"
    show "dropWhile is_space c = []"
    proof (rule ccontr)
      assume n: "dropWhile is_space c \<noteq> []"
      with dropWhile_Nil_or_hd[of is_space c] have "\<not> is_space (hd (dropWhile is_space c))" by blast
      moreover from n have "hd (dropWhile is_space c) \<in> set (dropWhile is_space c)" by simp
      ultimately show False using a by blast
    qed
  next
    assume e: "dropWhile is_space c = []"
    show "\<forall>x\<in>set (dropWhile is_space c). is_space x" unfolding e by simp
  qed
  also have "\<dots> \<longleftrightarrow> (\<forall>x\<in>set c. is_space x)"
    by (rule dropWhile_eq_Nil_conv)
  finally show ?thesis .
qed

lemma trim_space_prefix: "\<forall>x\<in>set ws. is_space x \<Longrightarrow> trim (ws @ c) = trim c"
  by (simp add: trim_def dropWhile_append)

lemma pushCurrent_empty: "trim c = [] \<Longrightarrow> pushCurrent r c = (r, c)"
  by (simp add: pushCurrent_def)

lemma pushCurrent_cong: "trim c1 = trim c2 \<Longrightarrow> trim c2 \<noteq> [] \<Longrightarrow> pushCurrent r c1 = pushCurrent r c2"
  by (simp add: pushCurrent_def)

lemma pushCurrent_result:
  "pushCurrent (r0 @ r) c = (r0 @ fst (pushCurrent r c), snd (pushCurrent r c))"
  by (simp add: pushCurrent_def Let_def split: option.splits)

lemma pushCurrent_snd_space: "\<forall>x\<in>set (snd (pushCurrent r c)). is_space x"
proof (cases "trim c = []")
  case True
  then show ?thesis by (simp add: pushCurrent_empty trim_Nil_iff)
next
  case False
  then show ?thesis by (simp add: pushCurrent_def Let_def split: option.splits)
qed

lemma parseLoop_result:
  "parseLoop b (r0 @ r) c d = (r0 @ fst (parseLoop b r c d), snd (parseLoop b r c d))"
proof (induction b arbitrary: r c d)
  case Nil
  show ?case by simp
next
  case (Cons x b)
  show ?case
  proof (cases "x = CHR '','' \<and> d + parenDelta x = 0")
    case True
    then have "\<And>r. parseLoop (x # b) r c d
        = parseLoop b (fst (pushCurrent r c)) (snd (pushCurrent r c)) (d + parenDelta x)"
      by (auto simp: parseLoop_Cons simp del: parseLoop.simps(2))
    then show ?thesis
      using Cons.IH[of "fst (pushCurrent r c)" "snd (pushCurrent r c)" "d + parenDelta x"]
      by (simp add: pushCurrent_result del: parseLoop.simps(2))
  next
    case False
    then have "\<And>r. parseLoop (x # b) r c d = parseLoop b r (c @ [x]) (d + parenDelta x)"
      by (auto simp: parseLoop_Cons simp del: parseLoop.simps(2))
    then show ?thesis using Cons.IH[of r "c @ [x]" "d + parenDelta x"]
      by (simp del: parseLoop.simps(2))
  qed
qed

lemma parsePipelineString_finish: "parsePipelineString s = finish (parseLoop s [] [] 0)"
  by (simp add: parsePipelineString_def finish_def split: prod.splits)

lemma finish_space:
  assumes "\<forall>x\<in>set ws. is_space x"
  shows "finish (r, ws @ c) = finish (r, c)"
proof (cases "trim c = []")
  case True
  with assms show ?thesis by (simp add: finish_def trim_space_prefix pushCurrent_empty)
next
  case False
  with assms pushCurrent_cong[of "ws @ c" c r] show ?thesis by (simp add: finish_def trim_space_prefix)
qed

lemma parseLoop_space_current:
  assumes "\<forall>x\<in>set ws. is_space x"
  shows "finish (parseLoop b r (ws @ c) d) = finish (parseLoop b r c d)"
proof (induction b arbitrary: r c d)
  case Nil
  from finish_space[OF assms] show ?case by simp
next
  case (Cons x b)
  show ?case
  proof (cases "x = CHR '','' \<and> d + parenDelta x = 0")
    case push: True
    show ?thesis
    proof (cases "trim c = []")
      case True
      with assms have "pushCurrent r (ws @ c) = (r, ws @ c)" "pushCurrent r c = (r, c)"
        by (simp_all add: trim_space_prefix pushCurrent_empty)
      with push Cons.IH[of r c] show ?thesis by (auto simp: parseLoop_Cons simp del: parseLoop.simps(2))
    next
      case False
      with assms pushCurrent_cong[of "ws @ c" c r] have "pushCurrent r (ws @ c) = pushCurrent r c"
        by (simp add: trim_space_prefix)
      with push show ?thesis by (auto simp: parseLoop_Cons simp del: parseLoop.simps(2))
    qed
  next
    case False
    with Cons.IH[of r "c @ [x]"] show ?thesis by (auto simp: parseLoop_Cons simp del: parseLoop.simps(2))
  qed
qed

lemma finish_result: "finish (r0 @ r, c) = r0 @ finish (r, c)"
  by (simp add: finish_def pushCurrent_result)

lemma split_at_top_level_comma:
  assumes "parenDepth a = 0"
  shows "parsePipelineString (a @ '','' @ b) = parsePipelineString a @ parsePipelineString b"
proof -
  obtain ra ca where la: "parseLoop a [] [] 0 = (ra, ca)" by (cases "parseLoop a [] [] 0")
  obtain rp cp where pa: "pushCurrent ra ca = (rp, cp)" by (cases "pushCurrent ra ca")
  from pa pushCurrent_snd_space[of ra ca] have sp: "\<forall>x\<in>set cp. is_space x" by simp
  have "parseLoop (a @ '','' @ b) [] [] 0 = parseLoop b rp cp 0"
    using assms la pa by (simp add: parseLoop_append parseLoop_Cons parenDelta_def del: parseLoop.simps(2))
  then have "parsePipelineString (a @ '','' @ b) = finish (parseLoop b rp cp 0)"
    by (simp only: parsePipelineString_finish)
  also have "\<dots> = finish (parseLoop b rp [] 0)"
    using parseLoop_space_current[OF sp, of b rp "[]" 0] by simp
  also have "\<dots> = rp @ finish (parseLoop b [] [] 0)"
    using parseLoop_result[of b rp "[]" "[]" 0] finish_result[of rp "fst (parseLoop b [] [] 0)" "snd (parseLoop b [] [] 0)"]
    by simp
  also have "rp = parsePipelineString a"
    using la pa by (simp add: parsePipelineString_finish finish_def)
  finally show ?thesis by (simp add: parsePipelineString_finish)
qed

lemma no_split_inside_parens:
  assumes "parenDepth a \<noteq> 0"
  shows "parseLoop (a @ '','' @ b) [] [] 0 =
           parseLoop b (fst (parseLoop a [] [] 0)) (snd (parseLoop a [] [] 0) @ '','') (parenDepth a)"
  using assms by (simp add: parseLoop_append parseLoop_Cons parenDelta_def del: parseLoop.simps(2))

lemma dropWhile_append_stop:
  "\<not> P y \<Longrightarrow> dropWhile P (xs @ y # ys) = dropWhile P xs @ y # ys"
  by (induction xs) auto

lemma trim_call_form:
  "trim (n @ ''('' @ p @ '')'') = dropWhile is_space n @ ''('' @ p @ '')''"
proof -
  have a: "\<not> is_space CHR ''(''" and b: "\<not> is_space CHR '')''" by (simp_all add: is_space_def)
  have "dropWhile is_space (n @ ''('' @ p @ '')'') = dropWhile is_space n @ ''('' @ p @ '')''"
    using a dropWhile_append_stop[of is_space "CHR ''(''" n "p @ '')''"] by simp
  then show ?thesis using b by (simp add: trim_def)
qed

lemma trim_dropWhile: "trim (dropWhile is_space n) = trim n"
  by (simp add: trim_def)

lemma findFrom_char:
  "c \<notin> set xs \<Longrightarrow> findFrom [c] (xs @ c # ys) k = Some (k + length xs)"
  by (induction xs arbitrary: k) auto

lemma indexOf_char: "c \<notin> set xs \<Longrightarrow> indexOf (xs @ c # ys) [c] = Some (length xs)"
  using findFrom_char[of c xs ys 0] by (simp add: indexOf_def indexOfFrom_def)

lemma pushCurrent_call_form:
  assumes "CHR ''('' \<notin> set n"
  shows "pushCurrent r (n @ ''('' @ p @ '')'') =
           (r @ [\<lparr>name = trim n,
                  params = filter (\<lambda>q. q \<noteq> []) (map trim (split p CHR '',''))\<rparr>], [])"
proof -
  let ?m = "dropWhile is_space n"
  let ?t = "?m @ ''('' @ p @ '')''"
  from assms have nm: "CHR ''('' \<notin> set ?m" by (meson set_dropWhileD)
  have t: "trim (n @ ''('' @ p @ '')'') = ?t" by (rule trim_call_form)
  have i: "indexOf ?t ''('' = Some (length ?m)" using indexOf_char[OF nm, of "p @ '')''"] by simp
  have e: "endsWith ?t '')''" by (simp add: endsWith_def)
  have s1: "substring ?t 0 (length ?m) = ?m" by (simp add: substring_def Let_def)
  have s2: "substring ?t (length ?m + 1) (length ?t - 1) = p"
    by (simp add: substring_def Let_def min_def max_def)
  show ?thesis
    unfolding pushCurrent_def t Let_def i using e s1 s2 by (simp add: trim_dropWhile)
qed

lemma parseLoop_plain:
  "\<forall>x\<in>set s. x \<noteq> CHR ''('' \<and> x \<noteq> CHR '')'' \<and> (x = CHR '','' \<longrightarrow> d \<noteq> 0) \<Longrightarrow>
     parseLoop s r c d = (r, c @ s)"
  by (induction s arbitrary: c) (auto simp: Let_def)

lemma parenDepth_plain:
  "\<forall>x\<in>set s. x \<noteq> CHR ''('' \<and> x \<noteq> CHR '')'' \<Longrightarrow> parenDepth s = 0"
  by (induction s) (auto simp: parenDelta_def)

lemma parenDepth_nesting:
  "noStrayClose k a \<Longrightarrow> int k + parenDepth a = int (nestingFrom k a)"
proof (induction a arbitrary: k)
  case Nil
  show ?case by simp
next
  case (Cons c a)
  show ?case
  proof (cases "c = CHR ''(''")
    case True
    with Cons.prems have "noStrayClose (k + 1) a" by simp
    from Cons.IH[OF this] True show ?thesis by (simp add: parenDelta_def)
  next
    case no: False
    show ?thesis
    proof (cases "c = CHR '')''")
      case True
      with Cons.prems have k: "0 < k" and "noStrayClose (k - 1) a" by simp_all
      from Cons.IH[OF this(2)] True k show ?thesis by (simp add: parenDelta_def of_nat_diff)
    next
      case False
      with no Cons.prems have "noStrayClose k a" by simp
      from Cons.IH[OF this] no False show ?thesis by (simp add: parenDelta_def)
    qed
  qed
qed

lemma parseLoop_nested:
  "noStrayClose k p \<Longrightarrow> parseLoop p r c (1 + int k) = (r, c @ p)"
proof (induction p arbitrary: k c)
  case Nil
  show ?case by simp
next
  case (Cons x p)
  show ?case
  proof (cases "x = CHR ''(''")
    case True
    with Cons.prems have "noStrayClose (k + 1) p" by simp
    from Cons.IH[OF this, of "c @ [x]"] True show ?thesis
      by (simp add: parseLoop_Cons parenDelta_def add.commute del: parseLoop.simps(2))
  next
    case no: False
    show ?thesis
    proof (cases "x = CHR '')''")
      case True
      with Cons.prems have k: "0 < k" and "noStrayClose (k - 1) p" by simp_all
      have step: "parseLoop (x # p) r c (1 + int k) = parseLoop p r (c @ [x]) (1 + int k + parenDelta x)"
        using True by (simp add: parseLoop_Cons del: parseLoop.simps(2))
      have d: "1 + int k + parenDelta x = 1 + int (k - 1)"
        using True k by (simp add: parenDelta_def)
      show ?thesis
        unfolding step d using Cons.IH[OF \<open>noStrayClose (k - 1) p\<close>, of "c @ [x]"] by simp
    next
      case False
      with no Cons.prems have "noStrayClose k p" by simp
      from Cons.IH[OF this, of "c @ [x]"] no False show ?thesis
        by (simp add: parseLoop_Cons parenDelta_def del: parseLoop.simps(2))
    qed
  qed
qed

lemma parse_call_balanced:
  assumes n: "\<forall>x\<in>set n. x \<noteq> CHR ''('' \<and> x \<noteq> CHR '')'' \<and> x \<noteq> CHR '',''"
    and p: "noStrayClose 0 p" and b: "nestingFrom 0 p = 0"
  shows "parsePipelineString (n @ ''('' @ p @ '')'') =
           [\<lparr>name = trim n, params = filter (\<lambda>q. q \<noteq> []) (map trim (split p CHR '',''))\<rparr>]"
proof -
  from n have l1: "parseLoop n [] [] 0 = ([], n)"
    using parseLoop_plain[of n 0 "[]" "[]"] by simp
  from p have l2: "parseLoop p [] (n @ ''('') 1 = ([], n @ ''('' @ p)"
    using parseLoop_nested[of 0 p "[]" "n @ ''(''"] by simp
  from n have dn: "parenDepth n = 0" by (simp add: parenDepth_plain)
  from parenDepth_nesting[OF p] b have dp: "parenDepth p = 0" by simp
  have "parseLoop (n @ ''('' @ p @ '')'') [] [] 0 = parseLoop (''('' @ p @ '')'') [] n 0"
    by (simp add: parseLoop_append[of n] l1 dn del: parseLoop.simps(2))
  also have "\<dots> = parseLoop (p @ '')'') [] (n @ ''('') 1"
    by (simp add: parseLoop_Cons parenDelta_def del: parseLoop.simps(2))
  also have "\<dots> = parseLoop '')'' [] (n @ ''('' @ p) 1"
    by (simp add: parseLoop_append[of p] l2 dp del: parseLoop.simps(2))
  also have "\<dots> = ([], n @ ''('' @ p @ '')'')"
    by (simp add: parseLoop_Cons parenDelta_def del: parseLoop.simps(2))
  finally have "parseLoop (n @ ''('' @ p @ '')'') [] [] 0 = ([], n @ ''('' @ p @ '')'')" .
  moreover from n have "CHR ''('' \<notin> set n" by blast
  ultimately show ?thesis
    using pushCurrent_call_form[of n "[]" p] by (simp add: parsePipelineString_def)
qed

text \<open>
  Claim C8, as amended. The specification \<^verbatim>\<open>a(1,2), b\<close> is parsed into the stage \<open>a\<close>
  with the parameters \<open>1\<close> and \<open>2\<close> and the stage \<open>b\<close> without parameters. The parser
  splits at the commas at which its counter, the number of \<^verbatim>\<open>(\<close> minus the number of
  \<^verbatim>\<open>)\<close> so far, is \<open>0\<close>: such a comma separates two specifications that are parsed
  independently of each other, and a comma at which the counter is not \<open>0\<close> pushes no
  stage and stays in the current segment. As long as no \<^verbatim>\<open>)\<close> has come without a \<^verbatim>\<open>(\<close>
  open before it, the counter is the nesting depth, so a comma inside parentheses
  starts no stage. A name followed by a parameter list in parentheses, the list with
  its own parentheses matched, is one stage; its parameters are the pieces of the list
  between all its commas, trimmed, without the empty ones.
\<close>

theorem parsePipelineString_top_level_commas:
  "parsePipelineString ''a(1,2), b''
     = [\<lparr>name = ''a'', params = [''1'', ''2'']\<rparr>, \<lparr>name = ''b'', params = []\<rparr>]
   \<and> (parenDepth a = 0 \<longrightarrow>
        parsePipelineString (a @ '','' @ b) = parsePipelineString a @ parsePipelineString b)
   \<and> (parenDepth a \<noteq> 0 \<longrightarrow>
        parseLoop (a @ '','' @ b) [] [] 0
          = parseLoop b (fst (parseLoop a [] [] 0)) (snd (parseLoop a [] [] 0) @ '','') (parenDepth a))
   \<and> (noStrayClose 0 a \<longrightarrow> parenDepth a = int (nestingFrom 0 a))
   \<and> (noStrayClose 0 a \<and> 0 < nestingFrom 0 a \<longrightarrow>
        parseLoop (a @ '','' @ b) [] [] 0
          = parseLoop b (fst (parseLoop a [] [] 0)) (snd (parseLoop a [] [] 0) @ '','')
              (int (nestingFrom 0 a)))
   \<and> ((\<forall>x\<in>set n. x \<noteq> CHR ''('' \<and> x \<noteq> CHR '')'' \<and> x \<noteq> CHR '','') \<and>
       noStrayClose 0 p \<and> nestingFrom 0 p = 0 \<longrightarrow>
        parsePipelineString (n @ ''('' @ p @ '')'')
          = [\<lparr>name = trim n, params = filter (\<lambda>q. q \<noteq> []) (map trim (split p CHR '',''))\<rparr>])"
proof -
  have ex: "parsePipelineString ''a(1,2), b''
     = [\<lparr>name = ''a'', params = [''1'', ''2'']\<rparr>, \<lparr>name = ''b'', params = []\<rparr>]"
    by (simp add: parsePipelineString_def pushCurrent_def trim_def is_space_def indexOf_def
          indexOfFrom_def endsWith_def substring_def split_def)
  have nest: "parenDepth a = int (nestingFrom 0 a)" if "noStrayClose 0 a"
    using parenDepth_nesting[OF that] by simp
  have inside: "parseLoop (a @ '','' @ b) [] [] 0
          = parseLoop b (fst (parseLoop a [] [] 0)) (snd (parseLoop a [] [] 0) @ '','')
              (int (nestingFrom 0 a))"
    if "noStrayClose 0 a" "0 < nestingFrom 0 a"
  proof -
    from nest[OF that(1)] that(2) have "parenDepth a \<noteq> 0" by simp
    from no_split_inside_parens[OF this, of b] nest[OF that(1)] show ?thesis by simp
  qed
  from ex split_at_top_level_comma[of a b] no_split_inside_parens[of a b] nest inside
    parse_call_balanced[of n p]
  show ?thesis by blast
qed

theorem parsePipelineString_top_level_commas_witness:
  "parenDepth ''a(1,2)'' = 0
   \<and> parsePipelineString (''a(1,2)'' @ '','' @ '' b'') = parsePipelineString ''a(1,2)'' @ parsePipelineString '' b''
   \<and> parenDepth ''a(1'' \<noteq> 0 \<and> noStrayClose 0 ''a(1'' \<and> 0 < nestingFrom 0 ''a(1''
   \<and> parenDepth ''a(1'' = int (nestingFrom 0 ''a(1'')
   \<and> parseLoop (''a(1'' @ '','' @ ''2)'') [] [] 0 = ([], ''a(1,2)'')
   \<and> noStrayClose 0 '' f(1,2) ,, x y '' \<and> nestingFrom 0 '' f(1,2) ,, x y '' = 0
   \<and> parsePipelineString (''up'' @ ''('' @ '' f(1,2) ,, x y '' @ '')'')
        = [\<lparr>name = ''up'', params = [''f(1'', ''2)'', ''x y'']\<rparr>]"
proof -
  have d0: "parenDepth ''a(1,2)'' = 0" and d1: "parenDepth ''a(1'' \<noteq> 0"
    and s1: "noStrayClose 0 ''a(1''" and n1: "0 < nestingFrom 0 ''a(1''"
    by (simp_all add: parenDelta_def)
  have n: "\<forall>x\<in>set ''up''. x \<noteq> CHR ''('' \<and> x \<noteq> CHR '')'' \<and> x \<noteq> CHR '',''"
    and p: "noStrayClose 0 '' f(1,2) ,, x y ''" "nestingFrom 0 '' f(1,2) ,, x y '' = 0"
    by simp_all
  note t = parsePipelineString_top_level_commas
  from t[of "''a(1,2)''" "'' b''"] d0
  have a: "parsePipelineString (''a(1,2)'' @ '','' @ '' b'') = parsePipelineString ''a(1,2)'' @ parsePipelineString '' b''"
    by blast
  from t[of "''a(1''" "''2)''"] s1 have e: "parenDepth ''a(1'' = int (nestingFrom 0 ''a(1'')"
    by blast
  from t[of "''a(1''" "''2)''"] s1 n1
  have b: "parseLoop (''a(1'' @ '','' @ ''2)'') [] [] 0
          = parseLoop ''2)'' (fst (parseLoop ''a(1'' [] [] 0)) (snd (parseLoop ''a(1'' [] [] 0) @ '','')
              (int (nestingFrom 0 ''a(1''))"
    by blast
  have b': "parseLoop ''2)'' (fst (parseLoop ''a(1'' [] [] 0)) (snd (parseLoop ''a(1'' [] [] 0) @ '','')
              (int (nestingFrom 0 ''a(1'')) = ([], ''a(1,2)'')"
    by simp
  from t[of _ _ "''up''" "'' f(1,2) ,, x y ''"] n p
  have c: "parsePipelineString (''up'' @ ''('' @ '' f(1,2) ,, x y '' @ '')'')
     = [\<lparr>name = trim ''up'', params = filter (\<lambda>q. q \<noteq> []) (map trim (split '' f(1,2) ,, x y '' CHR '',''))\<rparr>]"
    by blast
  have c': "trim ''up'' = ''up''"
    "filter (\<lambda>q. q \<noteq> []) (map trim (split '' f(1,2) ,, x y '' CHR '','')) = [''f(1'', ''2)'', ''x y'']"
    by (simp_all add: trim_def is_space_def split_def)
  from d0 d1 s1 n1 e a b b' p c c' show ?thesis by (simp only:) simp
qed

text \<open>
  Claim C8 as stated fails after a closing parenthesis that has no opening one. In
  \<^verbatim>\<open>a),b(1,2)\<close> the first \<^verbatim>\<open>)\<close> takes the counter to \<open>-1\<close>, so the comma after it does not
  split, the \<^verbatim>\<open>(\<close> of \<^verbatim>\<open>b(1,2)\<close> brings the counter back to \<open>0\<close>, and the comma inside
  that parameter list starts a new stage. On its own, \<^verbatim>\<open>b(1,2)\<close> is one stage.
\<close>

theorem comma_after_stray_close_counterexample:
  "parsePipelineString ''a),b(1,2)''
     = [\<lparr>name = ''a),b(1'', params = []\<rparr>, \<lparr>name = ''2)'', params = []\<rparr>]
   \<and> parsePipelineString ''b(1,2)'' = [\<lparr>name = ''b'', params = [''1'', ''2'']\<rparr>]"
  by code_simp

section \<open>Properties of pipeline execution\<close>

lemma runStages_last:
  "runStages original reg tool strategy ss cur = last (cur # stageOutputs original reg tool strategy ss)"
  by (induction ss arbitrary: cur) (auto split: option.splits pipeline_result.splits)

text \<open>
  Claim C5. The result of \<^verbatim>\<open>executePipelines\<close> is the last of the contents that the
  stages return when every stage is given the original content, and the original
  content when no stage returns any. For a chain of two registered stages that both
  return content, the result is what the second stage returns on the original content.
\<close>

theorem executePipelines_original_content:
  "executePipelines content spec reg tool strategy
     = last (content # stageOutputs content reg tool strategy (parsePipelineString spec))
   \<and> (parsePipelineString spec = [s1, s2] \<and>
       reg (name s1) = Some f \<and> f content (name s1) tool strategy (params s1) = Content c1 \<and>
       reg (name s2) = Some g \<and> g content (name s2) tool strategy (params s2) = Content c2
       \<longrightarrow> executePipelines content spec reg tool strategy = c2)"
  by (simp add: executePipelines_def runStages_last)

theorem executePipelines_original_content_witness:
  "parsePipelineString ''append-world, twice''
     = [\<lparr>name = ''append-world'', params = []\<rparr>, \<lparr>name = ''twice'', params = []\<rparr>]
   \<and> demo_registry ''append-world'' = Some (\<lambda>content pipelineName tool strategy ps. Content (content @ '' world''))
   \<and> demo_registry ''twice'' = Some (\<lambda>content pipelineName tool strategy ps. Content (content @ content))
   \<and> executePipelines ''hello'' ''append-world, twice'' demo_registry ''claude'' ''default'' = ''hellohello''
   \<and> executePipelines ''hello'' ''append-world, twice'' demo_registry ''claude'' ''default''
        \<noteq> ''hello worldhello world''"
proof -
  have p: "parsePipelineString ''append-world, twice''
     = [\<lparr>name = ''append-world'', params = []\<rparr>, \<lparr>name = ''twice'', params = []\<rparr>]"
    by (simp add: parsePipelineString_def pushCurrent_def trim_def is_space_def indexOf_def
          indexOfFrom_def)
  have f: "demo_registry ''append-world'' = Some (\<lambda>content pipelineName tool strategy ps. Content (content @ '' world''))"
    and g: "demo_registry ''twice'' = Some (\<lambda>content pipelineName tool strategy ps. Content (content @ content))"
    by (simp_all add: demo_registry_def)
  from executePipelines_original_content[of "''hello''" "''append-world, twice''" demo_registry
      "''claude''" "''default''" "\<lparr>name = ''append-world'', params = []\<rparr>" "\<lparr>name = ''twice'', params = []\<rparr>"
      "\<lambda>content pipelineName tool strategy ps. Content (content @ '' world'')" "''hello world''"
      "\<lambda>content pipelineName tool strategy ps. Content (content @ content)" "''hellohello''"]
    p f g
  have "executePipelines ''hello'' ''append-world, twice'' demo_registry ''claude'' ''default'' = ''hellohello''"
    by simp
  with p f g show ?thesis by simp
qed

section \<open>Properties of the visibility filter\<close>

text \<open>
  Claim C4. A filter region is kept exactly when the list parsed from \<^verbatim>\<open>include\<close> is
  empty or contains the tool, and the list parsed from \<^verbatim>\<open>exclude\<close> does not contain
  it; a tool in both lists is dropped. The output of the filter for a text whose first
  opening tag has a matching closing tag is the text before the tag, then the filtered
  inner text if the region is kept by this rule and nothing otherwise, then the filtered
  rest.
\<close>

theorem shouldKeep_rule:
  "(shouldKeep openingTagStr tool \<longleftrightarrow>
      (set (includesOf openingTagStr) = {} \<or> tool \<in> set (includesOf openingTagStr)) \<and>
      tool \<notin> set (excludesOf openingTagStr))
   \<and> (tool \<in> set (includesOf openingTagStr) \<and> tool \<in> set (excludesOf openingTagStr)
        \<longrightarrow> \<not> shouldKeep openingTagStr tool)
   \<and> (indexOf t TAG_OPEN_START = Some startIndex \<and> findClosing t 0 startIndex = Some closingIndex \<and>
       openingTagStr = substring t startIndex (openingTagEnd1 t startIndex)
        \<longrightarrow> processVisibility t tool =
              take startIndex t
              @ (if (set (includesOf openingTagStr) = {} \<or> tool \<in> set (includesOf openingTagStr)) \<and>
                    tool \<notin> set (excludesOf openingTagStr)
                 then processVisibility (substring t (openingTagEnd1 t startIndex) closingIndex) tool
                 else [])
              @ processVisibility (drop (closingIndex + length TAG_CLOSE) t) tool)"
proof -
  have rule: "shouldKeep tg tool \<longleftrightarrow>
      (set (includesOf tg) = {} \<or> tool \<in> set (includesOf tg)) \<and> tool \<notin> set (excludesOf tg)" for tg
    by (simp add: shouldKeep_def Let_def)
  have region: "processVisibility t tool =
              take startIndex t
              @ (if shouldKeep (substring t startIndex (openingTagEnd1 t startIndex)) tool
                 then processVisibility (substring t (openingTagEnd1 t startIndex) closingIndex) tool
                 else [])
              @ processVisibility (drop (closingIndex + length TAG_CLOSE) t) tool"
    if "indexOf t TAG_OPEN_START = Some startIndex" "findClosing t 0 startIndex = Some closingIndex"
    using that by (subst processVisibility.simps) (simp add: Let_def)
  show ?thesis using rule region by auto
qed

theorem shouldKeep_rule_witness:
  "''claude'' \<in> set (includesOf both_tag) \<and> ''claude'' \<in> set (excludesOf both_tag)
   \<and> \<not> shouldKeep both_tag ''claude''
   \<and> indexOf both_doc TAG_OPEN_START = Some 1 \<and> findClosing both_doc 0 1 = Some 71
   \<and> both_tag = substring both_doc 1 (openingTagEnd1 both_doc 1)
   \<and> processVisibility both_doc ''claude'' = ''AB''
   \<and> processVisibility both_doc ''roo'' = ''AContentB''"
proof -
  have i: "''claude'' \<in> set (includesOf both_tag)" and x: "''claude'' \<in> set (excludesOf both_tag)"
    and r: "''roo'' \<in> set (includesOf both_tag)" "''roo'' \<notin> set (excludesOf both_tag)"
    by code_simp+
  have s: "indexOf both_doc TAG_OPEN_START = Some 1" and c: "findClosing both_doc 0 1 = Some 71"
    and g: "both_tag = substring both_doc 1 (openingTagEnd1 both_doc 1)"
    by code_simp+
  have e: "take 1 both_doc = ''A''"
    "processVisibility (drop (71 + length TAG_CLOSE) both_doc) tool = ''B''"
    "processVisibility (substring both_doc (openingTagEnd1 both_doc 1) 71) tool = ''Content''" for tool
    by (simp_all add: both_doc_def TAG_CLOSE_def TAG_OPEN_START_def indexOf_def indexOfFrom_def
          openingTagEnd1_def substring_def processVisibility.simps)
  note t = shouldKeep_rule[of both_tag _ both_doc 1 71]
  from t[of "''claude''"] i x have k: "\<not> shouldKeep both_tag ''claude''" by blast
  from t[of "''claude''"] i x s c g e have p1: "processVisibility both_doc ''claude'' = ''AB''" by simp
  from t[of "''roo''"] r s c g e have p2: "processVisibility both_doc ''roo'' = ''AContentB''" by simp
  from i x k s c g p1 p2 show ?thesis by simp
qed

section \<open>Properties of path resolution\<close>

text \<open>
  Claim C7. A path literal that is neither absolute nor prefixed with \<^verbatim>\<open>@/\<close> is resolved
  against the directory of the including file by \<^verbatim>\<open>resolvePath\<close> (include directives)
  and against the project root by \<^verbatim>\<open>Engine.resolveFilePath\<close> (the \<^verbatim>\<open>readFile\<close> request).
  Both resolve a literal prefixed with \<^verbatim>\<open>@/\<close> against the project root, without the
  prefix, and both return an absolute literal as it is.
\<close>

theorem resolvePath_asymmetry:
  "(isAbsolute lit \<longrightarrow>
      resolvePath wd lit root includer = lit \<and>
      resolveFilePath wd root lit = lit)
   \<and> (startsWith lit ''@/'' \<longrightarrow>
      resolvePath wd lit root includer = path_resolve wd [root, drop 2 lit] \<and>
      resolveFilePath wd root lit = path_resolve wd [root, drop 2 lit])
   \<and> (\<not> isAbsolute lit \<and> \<not> startsWith lit ''@/'' \<longrightarrow>
      resolvePath wd lit root includer = path_resolve wd [dirname includer, lit] \<and>
      resolveFilePath wd root lit = path_resolve wd [root, lit])"
proof -
  have "startsWith lit ''@/'' \<Longrightarrow> \<not> isAbsolute lit"
    by (cases lit) (auto simp: isAbsolute_def)
  then show ?thesis by (auto simp: resolvePath_def resolveFilePath_def Let_def)
qed

theorem resolvePath_asymmetry_witness:
  "\<not> isAbsolute ''inner.md'' \<and> \<not> startsWith ''inner.md'' ''@/''
   \<and> resolvePath ''/home/user'' ''inner.md'' ''/proj'' ''/proj/docs/outer.md'' = ''/proj/docs/inner.md''
   \<and> resolveFilePath ''/home/user'' ''/proj'' ''inner.md'' = ''/proj/inner.md''
   \<and> startsWith ''@/docs/outer.md'' ''@/''
   \<and> resolvePath ''/home/user'' ''@/docs/outer.md'' ''/proj'' ''/proj/sub/main.md'' = ''/proj/docs/outer.md''
   \<and> resolveFilePath ''/home/user'' ''/proj'' ''@/docs/outer.md'' = ''/proj/docs/outer.md''
   \<and> isAbsolute ''/etc/../x.md''
   \<and> resolvePath ''/home/user'' ''/etc/../x.md'' ''/proj'' ''/proj/sub/main.md'' = ''/etc/../x.md''
   \<and> resolveFilePath ''/home/user'' ''/proj'' ''/etc/../x.md'' = ''/etc/../x.md''
   \<and> process 3 demo_env ''<content-factory-include-file path=\"@/docs/outer.md\" />'' ''/proj/sub/main.md'' fresh
       = Some (Inr ''O-inner of docs'', \<lparr>visitedFiles = [], reads = [''/proj/docs/outer.md'', ''/proj/docs/inner.md'']\<rparr>)"
proof -
  have r: "\<not> isAbsolute ''inner.md'' \<and> \<not> startsWith ''inner.md'' ''@/''"
    and a: "startsWith ''@/docs/outer.md'' ''@/''" and b: "isAbsolute ''/etc/../x.md''"
    by (simp_all add: isAbsolute_def)
  have e: "path_resolve ''/home/user'' [dirname ''/proj/docs/outer.md'', ''inner.md''] = ''/proj/docs/inner.md''"
    "path_resolve ''/home/user'' [''/proj'', ''inner.md''] = ''/proj/inner.md''"
    "path_resolve ''/home/user'' [''/proj'', drop 2 ''@/docs/outer.md''] = ''/proj/docs/outer.md''"
    by code_simp+
  have p: "process 3 demo_env ''<content-factory-include-file path=\"@/docs/outer.md\" />'' ''/proj/sub/main.md'' fresh
       = Some (Inr ''O-inner of docs'', \<lparr>visitedFiles = [], reads = [''/proj/docs/outer.md'', ''/proj/docs/inner.md'']\<rparr>)"
    by code_simp
  note t = resolvePath_asymmetry[of _ "''/home/user''" "''/proj''"]
  from t[of "''inner.md''" "''/proj/docs/outer.md''"] r e
  have 1: "resolvePath ''/home/user'' ''inner.md'' ''/proj'' ''/proj/docs/outer.md'' = ''/proj/docs/inner.md''"
    "resolveFilePath ''/home/user'' ''/proj'' ''inner.md'' = ''/proj/inner.md''" by simp_all
  from t[of "''@/docs/outer.md''" "''/proj/sub/main.md''"] a e
  have 2: "resolvePath ''/home/user'' ''@/docs/outer.md'' ''/proj'' ''/proj/sub/main.md'' = ''/proj/docs/outer.md''"
    "resolveFilePath ''/home/user'' ''/proj'' ''@/docs/outer.md'' = ''/proj/docs/outer.md''" by simp_all
  from t[of "''/etc/../x.md''" "''/proj/sub/main.md''"] b
  have 3: "resolvePath ''/home/user'' ''/etc/../x.md'' ''/proj'' ''/proj/sub/main.md'' = ''/etc/../x.md''"
    "resolveFilePath ''/home/user'' ''/proj'' ''/etc/../x.md'' = ''/etc/../x.md''" by simp_all
  from r a b 1 2 3 p show ?thesis by (simp only:) simp
qed

section \<open>Properties of include resolution\<close>

lemma matchInclude_path_first:
  assumes "matchInclude s = Some m"
  shows "\<exists>ws rest. s = INCLUDE_OPEN @ ws @ ''path'' @ rest \<and> ws \<noteq> [] \<and> (\<forall>c\<in>set ws. is_space c)"
proof -
  let ?s0 = "drop (length INCLUDE_OPEN) s"
  let ?s1 = "dropWhile is_space ?s0"
  from assms have o: "startsWith s INCLUDE_OPEN"
    by (simp add: matchInclude_def split: if_splits)
  with assms have c: "?s1 \<noteq> ?s0 \<and> startsWith ?s1 ''path''"
    by (simp add: matchInclude_def Let_def split: if_splits)
  from o have 1: "s = INCLUDE_OPEN @ ?s0"
    by (metis append_take_drop_id prefix_def append_eq_conv_conj startsWith_prefix)
  from c have 2: "?s1 = ''path'' @ drop (length ''path'') ?s1"
    by (metis append_take_drop_id prefix_def append_eq_conv_conj startsWith_prefix)
  have 3: "?s0 = takeWhile is_space ?s0 @ ?s1" by simp
  from c 3 have 4: "takeWhile is_space ?s0 \<noteq> []" by (metis append_Nil)
  have 5: "\<forall>c\<in>set (takeWhile is_space ?s0). is_space c" by (meson set_takeWhileD)
  from 1 2 3 have "s = INCLUDE_OPEN @ takeWhile is_space ?s0 @ ''path'' @ drop (length ''path'') ?s1"
    by metis
  with 4 5 show ?thesis by blast
qed

text \<open>
  Claim C10. Whenever the include pattern matches, the text is the tag name, white space
  and then the attribute \<^verbatim>\<open>path\<close>: no other attribute can come first. The tag with
  \<^verbatim>\<open>pipelines\<close> before \<^verbatim>\<open>path\<close> is not matched: the scan finds nothing, no file is read
  and the processed output is the tag itself, whereas the same tag with \<^verbatim>\<open>path\<close> first
  is resolved and passed through the pipeline.
\<close>

theorem include_needs_path_first:
  "(matchInclude s = Some m \<longrightarrow>
      (\<exists>ws rest. s = INCLUDE_OPEN @ ws @ ''path'' @ rest \<and> ws \<noteq> [] \<and> (\<forall>c\<in>set ws. is_space c)))
   \<and> scanIncludes 0 pipelines_first = []
   \<and> process 2 demo_env pipelines_first ''/proj/docs/main.md'' fresh = Some (Inr pipelines_first, fresh)
   \<and> process 2 demo_env path_first ''/proj/docs/main.md'' fresh
       = Some (Inr ''SharedShared'', \<lparr>visitedFiles = [], reads = [''/proj/docs/shared.md'']\<rparr>)"
proof -
  have "scanIncludes 0 pipelines_first = []" by code_simp
  moreover have "process 2 demo_env pipelines_first ''/proj/docs/main.md'' fresh = Some (Inr pipelines_first, fresh)"
    by code_simp
  moreover have "process 2 demo_env path_first ''/proj/docs/main.md'' fresh
       = Some (Inr ''SharedShared'', \<lparr>visitedFiles = [], reads = [''/proj/docs/shared.md'']\<rparr>)"
    by code_simp
  ultimately show ?thesis using matchInclude_path_first[of s m] by blast
qed

theorem include_needs_path_first_witness:
  "matchInclude path_first
     = Some \<lparr>fullMatch = path_first, filePath = ''./shared.md'', pipelinesStr = Some ''twice''\<rparr>
   \<and> (\<exists>ws rest. path_first = INCLUDE_OPEN @ ws @ ''path'' @ rest \<and> ws \<noteq> [] \<and> (\<forall>c\<in>set ws. is_space c))"
proof -
  have m: "matchInclude path_first
     = Some \<lparr>fullMatch = path_first, filePath = ''./shared.md'', pipelinesStr = Some ''twice''\<rparr>"
    by code_simp
  with include_needs_path_first[of path_first] show ?thesis by blast
qed

text \<open>
  Claim C9. The resolved content of \<^verbatim>\<open>amp.md\<close> is \<^verbatim>\<open><$&>\<close>. Processing a document that
  includes it between brackets does not give \<^verbatim>\<open>[<$&>]\<close>, the document with the directive
  replaced by that content: \<^verbatim>\<open>String.replace\<close> expands \<^verbatim>\<open>$&\<close> to the matched directive.
\<close>

theorem replace_interprets_dollar_patterns:
  "process 1 demo_env ''<$&>'' ''/proj/docs/amp.md''
       \<lparr>visitedFiles = [''/proj/docs/main.md''], reads = [''/proj/docs/amp.md'']\<rparr>
     = Some (Inr ''<$&>'', \<lparr>visitedFiles = [''/proj/docs/main.md''], reads = [''/proj/docs/amp.md'']\<rparr>)
   \<and> process 2 demo_env (''['' @ amp_directive @ '']'') ''/proj/docs/main.md'' fresh
     = Some (Inr (''[<'' @ amp_directive @ ''>]''), \<lparr>visitedFiles = [], reads = [''/proj/docs/amp.md'']\<rparr>)
   \<and> ''[<'' @ amp_directive @ ''>]'' \<noteq> ''['' @ ''<$&>'' @ '']''"
proof -
  have "process 1 demo_env ''<$&>'' ''/proj/docs/amp.md''
       \<lparr>visitedFiles = [''/proj/docs/main.md''], reads = [''/proj/docs/amp.md'']\<rparr>
     = Some (Inr ''<$&>'', \<lparr>visitedFiles = [''/proj/docs/main.md''], reads = [''/proj/docs/amp.md'']\<rparr>)"
    by code_simp
  moreover have "process 2 demo_env (''['' @ amp_directive @ '']'') ''/proj/docs/main.md'' fresh
     = Some (Inr (''[<'' @ amp_directive @ ''>]''), \<lparr>visitedFiles = [], reads = [''/proj/docs/amp.md'']\<rparr>)"
    by code_simp
  moreover have "''[<'' @ amp_directive @ ''>]'' \<noteq> ''['' @ ''<$&>'' @ '']''"
    by (simp add: amp_directive_def)
  ultimately show ?thesis by blast
qed

text \<open>
  Claim C6, at a path literal that contains \<^verbatim>\<open>$$\<close>. The file does not exist; the marker
  that replaces the directive has \<^verbatim>\<open>./no$pe.md\<close> where the directive has \<^verbatim>\<open>./no$$pe.md\<close>.
  No exception is raised and the directive after it is resolved.
\<close>

theorem missing_file_marker_dollar:
  "readFile demo_env (resolvePath (cwd demo_env) ''./no$$pe.md'' (rootPath demo_env) ''/proj/docs/main.md'') = None
   \<and> process 2 demo_env missing_dollar_doc ''/proj/docs/main.md'' fresh
     = Some (Inr ''X[MISSING FILE: ./no$pe.md]YShared'',
             \<lparr>visitedFiles = [], reads = [''/proj/docs/no$$pe.md'', ''/proj/docs/shared.md'']\<rparr>)"
proof -
  have "readFile demo_env (resolvePath (cwd demo_env) ''./no$$pe.md'' (rootPath demo_env) ''/proj/docs/main.md'') = None"
    by code_simp
  moreover have "process 2 demo_env missing_dollar_doc ''/proj/docs/main.md'' fresh
     = Some (Inr ''X[MISSING FILE: ./no$pe.md]YShared'',
             \<lparr>visitedFiles = [], reads = [''/proj/docs/no$$pe.md'', ''/proj/docs/shared.md'']\<rparr>)"
    by code_simp
  ultimately show ?thesis by blast
qed

section \<open>Properties of the directive processor\<close>

lemma kept_or_grown_Inr [simp]:
  "kept_or_grown st (Inr t, st') \<longleftrightarrow> visitedFiles st' = visitedFiles st"
  by (simp add: kept_or_grown_def)

lemma kept_or_grown_Inl [simp]:
  "kept_or_grown st (Inl err, st') \<longleftrightarrow> prefix (visitedFiles st) (visitedFiles st')"
  by (simp add: kept_or_grown_def)

lemma kept_or_grown_reads [simp]:
  "kept_or_grown (st\<lparr>reads := r\<rparr>) out = kept_or_grown st out"
  by (simp add: kept_or_grown_def split: sum.splits)

lemma includesLoop_visited:
  assumes recur: "\<And>c p s out. recur c p s = Some out \<Longrightarrow> kept_or_grown s out"
  shows "includesLoop recur e includer ms t st = Some out \<Longrightarrow> kept_or_grown st out"
proof (induction ms arbitrary: t st)
  case Nil
  then show ?case by auto
next
  case (Cons m ms)
  let ?rp = "resolvePath (cwd e) (filePath m) (rootPath e) includer"
  let ?st1 = "st\<lparr>reads := reads st @ [?rp]\<rparr>"
  show ?case
  proof (cases "readFile e ?rp")
    case None
    with Cons.prems have "includesLoop recur e includer ms
        (replace t (fullMatch m) (''[MISSING FILE: '' @ filePath m @ '']'')) ?st1 = Some out"
      by (simp add: Let_def)
    from Cons.IH[OF this] show ?thesis by simp
  next
    case (Some c)
    show ?thesis
    proof (cases "recur c ?rp ?st1")
      case None
      with Some Cons.prems show ?thesis by (simp add: Let_def)
    next
      case sub: (Some sout)
      obtain r st2 where sout: "sout = (r, st2)" by (cases sout)
      from recur[OF sub] have k: "kept_or_grown st sout" by simp
      show ?thesis
      proof (cases r)
        case (Inl err)
        with Some sub sout Cons.prems have "out = (Inl err, st2)" by (simp add: Let_def)
        with k sout Inl show ?thesis by simp
      next
        case (Inr pc)
        with Some sub sout Cons.prems obtain t' where
          "includesLoop recur e includer ms t' st2 = Some out"
          by (simp add: Let_def)
        from Cons.IH[OF this] have "kept_or_grown st2 out" .
        moreover from k sout Inr have "visitedFiles st2 = visitedFiles st" by simp
        ultimately show ?thesis by (simp add: kept_or_grown_def split: sum.splits)
      qed
    qed
  qed
qed

lemma process_visited:
  "process n e c includer st = Some out \<Longrightarrow>
     kept_or_grown st out \<and>
     (\<forall>err. fst out = Inl err \<longrightarrow> path_resolve (cwd e) [includer] \<in> set (visitedFiles (snd out)))"
proof (induction n arbitrary: c includer st out)
  case 0
  then show ?case by simp
next
  case (Suc n)
  let ?p = "path_resolve (cwd e) [includer]"
  let ?st1 = "st\<lparr>visitedFiles := visitedFiles st @ [?p]\<rparr>"
  let ?t = "processVisibility c (toolName e)"
  show ?case
  proof (cases "?p \<in> set (visitedFiles st)")
    case True
    with Suc.prems show ?thesis by (auto simp: Let_def)
  next
    case False
    from Suc.IH have rec: "\<And>c p s out. process n e c p s = Some out \<Longrightarrow> kept_or_grown s out"
      by blast
    show ?thesis
    proof (cases "includesLoop (process n e) e ?p (scanIncludes 0 ?t) ?t ?st1")
      case None
      with False Suc.prems show ?thesis by (simp add: Let_def)
    next
      case (Some lout)
      obtain r st2 where lout: "lout = (r, st2)" by (cases lout)
      from includesLoop_visited[of "process n e", OF rec Some] have k: "kept_or_grown ?st1 lout" .
      show ?thesis
      proof (cases r)
        case (Inl err)
        with False Some lout Suc.prems have o: "out = (Inl err, st2)" by (simp add: Let_def)
        from k lout Inl have pre: "prefix (visitedFiles st @ [?p]) (visitedFiles st2)" by simp
        then have "prefix (visitedFiles st) (visitedFiles st2)"
          by (meson append_prefixD)
        moreover from pre have "?p \<in> set (visitedFiles st2)"
          by (metis in_set_conv_decomp prefix_def append.assoc append_Cons)
        ultimately show ?thesis using o by simp
      next
        case (Inr t')
        with False Some lout Suc.prems
        have o: "out = (Inr t', st2\<lparr>visitedFiles := removeAll ?p (visitedFiles st2)\<rparr>)"
          by (simp add: Let_def)
        from k lout Inr have "visitedFiles st2 = visitedFiles st @ [?p]" by simp
        with False have "removeAll ?p (visitedFiles st2) = visitedFiles st" by simp
        with o show ?thesis by simp
      qed
    qed
  qed
qed

lemma frame_okI:
  assumes "\<And>st out. f st = Some out \<Longrightarrow>
        \<exists>new. reads (snd out) = reads st @ new \<and>
           (\<forall>st0. visitedFiles st0 = visitedFiles st \<longrightarrow>
                  f st0 = Some (fst out, (snd out)\<lparr>reads := reads st0 @ new\<rparr>))"
  shows "frame_ok f"
  using assms unfolding frame_ok_def by blast

lemma frame_okD:
  assumes "frame_ok f" "f st = Some (r, st')"
  obtains new where "reads st' = reads st @ new"
    and "\<And>st0. visitedFiles st0 = visitedFiles st \<Longrightarrow> f st0 = Some (r, st'\<lparr>reads := reads st0 @ new\<rparr>)"
  using assms unfolding frame_ok_def by fastforce

lemma includesLoop_frame:
  assumes recur: "\<And>c p. frame_ok (recur c p)"
  shows "frame_ok (includesLoop recur e includer ms t)"
proof (induction ms arbitrary: t)
  case Nil
  show ?case by (rule frame_okI) auto
next
  case (Cons m ms)
  let ?rp = "resolvePath (cwd e) (filePath m) (rootPath e) includer"
  show ?case
  proof (rule frame_okI)
    fix st out
    assume run: "includesLoop recur e includer (m # ms) t st = Some out"
    obtain r st' where out: "out = (r, st')" by (cases out)
    let ?st1 = "st\<lparr>reads := reads st @ [?rp]\<rparr>"
    have v1: "visitedFiles (st0\<lparr>reads := reads st0 @ [?rp]\<rparr>) = visitedFiles ?st1"
      if "visitedFiles st0 = visitedFiles st" for st0 using that by simp
    show "\<exists>new. reads (snd out) = reads st @ new \<and>
           (\<forall>st0. visitedFiles st0 = visitedFiles st \<longrightarrow>
              includesLoop recur e includer (m # ms) t st0
                = Some (fst out, (snd out)\<lparr>reads := reads st0 @ new\<rparr>))"
    proof (cases "readFile e ?rp")
      case None
      let ?t' = "replace t (fullMatch m) (''[MISSING FILE: '' @ filePath m @ '']'')"
      from None run out have "includesLoop recur e includer ms ?t' ?st1 = Some (r, st')"
        by (simp add: Let_def)
      from frame_okD[OF Cons.IH this] obtain new where
        n: "reads st' = reads ?st1 @ new"
        and f: "\<And>st0. visitedFiles st0 = visitedFiles ?st1 \<Longrightarrow>
              includesLoop recur e includer ms ?t' st0 = Some (r, st'\<lparr>reads := reads st0 @ new\<rparr>)"
        by blast
      have "reads (snd out) = reads st @ ([?rp] @ new)" using n out by simp
      moreover have "includesLoop recur e includer (m # ms) t st0
                = Some (fst out, (snd out)\<lparr>reads := reads st0 @ ([?rp] @ new)\<rparr>)"
        if "visitedFiles st0 = visitedFiles st" for st0
        using f[OF v1[OF that]] None out by (simp add: Let_def)
      ultimately show ?thesis by blast
    next
      case (Some c)
      from Some run obtain sout where sub: "recur c ?rp ?st1 = Some sout"
        by (cases "recur c ?rp ?st1") (simp_all add: Let_def)
      obtain sr st2 where sout: "sout = (sr, st2)" by (cases sout)
      from frame_okD[OF recur] sub sout obtain n1 where
        n1: "reads st2 = reads ?st1 @ n1"
        and f1: "\<And>st0. visitedFiles st0 = visitedFiles ?st1 \<Longrightarrow>
              recur c ?rp st0 = Some (sr, st2\<lparr>reads := reads st0 @ n1\<rparr>)"
        by blast
      show ?thesis
      proof (cases sr)
        case (Inl err)
        with Some sub sout run out have o: "r = Inl err" "st' = st2" by (simp_all add: Let_def)
        have "reads (snd out) = reads st @ ([?rp] @ n1)" using n1 out o by simp
        moreover have "includesLoop recur e includer (m # ms) t st0
                = Some (fst out, (snd out)\<lparr>reads := reads st0 @ ([?rp] @ n1)\<rparr>)"
          if "visitedFiles st0 = visitedFiles st" for st0
          using f1[OF v1[OF that]] Some out o Inl by (simp add: Let_def)
        ultimately show ?thesis by blast
      next
        case (Inr pc)
        define pc' where "pc' =
          (case pipelinesStr m of
             None \<Rightarrow> pc
           | Some ps \<Rightarrow>
               (case pipelines e of
                  None \<Rightarrow> pc
                | Some availablePipelines \<Rightarrow>
                    if ps = [] then pc
                    else executePipelines pc ps availablePipelines (toolName e) (strategyName e)))"
        let ?t' = "replace t (fullMatch m) pc'"
        from Some sub sout Inr run out
        have "includesLoop recur e includer ms ?t' st2 = Some (r, st')"
          by (simp add: Let_def pc'_def)
        from frame_okD[OF Cons.IH this] obtain n2 where
          n2: "reads st' = reads st2 @ n2"
          and f2: "\<And>st0. visitedFiles st0 = visitedFiles st2 \<Longrightarrow>
              includesLoop recur e includer ms ?t' st0 = Some (r, st'\<lparr>reads := reads st0 @ n2\<rparr>)"
          by blast
        have "reads (snd out) = reads st @ ([?rp] @ n1 @ n2)" using n1 n2 out by simp
        moreover have "includesLoop recur e includer (m # ms) t st0
                = Some (fst out, (snd out)\<lparr>reads := reads st0 @ ([?rp] @ n1 @ n2)\<rparr>)"
          if v: "visitedFiles st0 = visitedFiles st" for st0
        proof -
          let ?s2 = "st2\<lparr>reads := reads (st0\<lparr>reads := reads st0 @ [?rp]\<rparr>) @ n1\<rparr>"
          have a: "recur c ?rp (st0\<lparr>reads := reads st0 @ [?rp]\<rparr>) = Some (sr, ?s2)"
            using f1[OF v1[OF v]] .
          have b: "includesLoop recur e includer ms ?t' ?s2 = Some (r, st'\<lparr>reads := reads ?s2 @ n2\<rparr>)"
            using f2[of ?s2] by simp
          show ?thesis using a b Some Inr out by (simp add: Let_def pc'_def)
        qed
        ultimately show ?thesis by blast
      qed
    qed
  qed
qed

lemma process_frame: "frame_ok (process n e c p)"
proof (induction n arbitrary: c p)
  case 0
  show ?case by (rule frame_okI) simp
next
  case (Suc n)
  let ?p = "path_resolve (cwd e) [p]"
  let ?t = "processVisibility c (toolName e)"
  let ?loop = "includesLoop (process n e) e ?p (scanIncludes 0 ?t) ?t"
  have loop: "frame_ok ?loop" by (rule includesLoop_frame) (rule Suc.IH)
  show ?case
  proof (rule frame_okI)
    fix st out
    assume run: "process (Suc n) e c p st = Some out"
    show "\<exists>new. reads (snd out) = reads st @ new \<and>
           (\<forall>st0. visitedFiles st0 = visitedFiles st \<longrightarrow>
              process (Suc n) e c p st0 = Some (fst out, (snd out)\<lparr>reads := reads st0 @ new\<rparr>))"
    proof (cases "?p \<in> set (visitedFiles st)")
      case True
      with run have "out = (Inl (CircularDependency ?p (visitedFiles st)), st)" by (simp add: Let_def)
      with True have "reads (snd out) = reads st @ []"
        and "\<And>st0. visitedFiles st0 = visitedFiles st \<Longrightarrow>
              process (Suc n) e c p st0 = Some (fst out, (snd out)\<lparr>reads := reads st0 @ []\<rparr>)"
        by (simp_all add: Let_def)
      then show ?thesis by blast
    next
      case False
      let ?st1 = "st\<lparr>visitedFiles := visitedFiles st @ [?p]\<rparr>"
      from False run obtain lout where l: "?loop ?st1 = Some lout"
        by (cases "?loop ?st1") (simp_all add: Let_def)
      obtain r st2 where lout: "lout = (r, st2)" by (cases lout)
      from frame_okD[OF loop] l lout obtain new where
        n: "reads st2 = reads ?st1 @ new"
        and f: "\<And>st0. visitedFiles st0 = visitedFiles ?st1 \<Longrightarrow>
              ?loop st0 = Some (r, st2\<lparr>reads := reads st0 @ new\<rparr>)"
        by blast
      have f': "?loop (st0\<lparr>visitedFiles := visitedFiles st0 @ [?p]\<rparr>)
                 = Some (r, st2\<lparr>reads := reads st0 @ new\<rparr>)"
        if "visitedFiles st0 = visitedFiles st" for st0
        using f[of "st0\<lparr>visitedFiles := visitedFiles st0 @ [?p]\<rparr>"] that by simp
      show ?thesis
      proof (cases r)
        case (Inl err)
        with False l lout run have o: "out = (Inl err, st2)" by (simp add: Let_def)
        have "reads (snd out) = reads st @ new" using n o by simp
        moreover have "process (Suc n) e c p st0 = Some (fst out, (snd out)\<lparr>reads := reads st0 @ new\<rparr>)"
          if v: "visitedFiles st0 = visitedFiles st" for st0
          using f'[OF v] False v o Inl by (simp add: Let_def)
        ultimately show ?thesis by blast
      next
        case (Inr t')
        with False l lout run
        have o: "out = (Inr t', st2\<lparr>visitedFiles := removeAll ?p (visitedFiles st2)\<rparr>)"
          by (simp add: Let_def)
        have "reads (snd out) = reads st @ new" using n o by simp
        moreover have "process (Suc n) e c p st0 = Some (fst out, (snd out)\<lparr>reads := reads st0 @ new\<rparr>)"
          if v: "visitedFiles st0 = visitedFiles st" for st0
          using f'[OF v] False v o Inr by (simp add: Let_def)
        ultimately show ?thesis by blast
      qed
    qed
  qed
qed

lemma process_Suc_fresh:
  assumes "path_resolve (cwd e) [includer] \<notin> set (visitedFiles st)"
  shows "process (Suc n) e c includer st =
     (case includesLoop (process n e) e (path_resolve (cwd e) [includer])
             (scanIncludes 0 (processVisibility c (toolName e))) (processVisibility c (toolName e))
             (st\<lparr>visitedFiles := visitedFiles st @ [path_resolve (cwd e) [includer]]\<rparr>) of
        None \<Rightarrow> None
      | Some (Inl err, st2) \<Rightarrow> Some (Inl err, st2)
      | Some (Inr t', st2) \<Rightarrow>
          Some (Inr t', st2\<lparr>visitedFiles := removeAll (path_resolve (cwd e) [includer]) (visitedFiles st2)\<rparr>))"
  using assms by (simp add: Let_def)

lemma getSubstitution_plain:
  "plainReplacement r \<Longrightarrow> getSubstitution matched preceding following r = r"
  by (induction matched preceding following r rule: getSubstitution.induct) auto

lemma replace_at_plain:
  "indexOf t d = Some k \<Longrightarrow> plainReplacement r \<Longrightarrow>
     replace t d r = take k t @ r @ drop (k + length d) t"
  by (simp add: replace_def getSubstitution_plain)

lemma includesLoop_items:
  fixes e :: env
  assumes ok: "\<forall>m\<in>set (map snd items). includeContent n e p v m = Some (f m)"
    and plain: "\<forall>m\<in>set (map snd items). plainReplacement (f m)"
    and occ: "firstOccurrences f resolved items final"
    and vis: "visitedFiles st = v"
  shows "\<exists>st'. includesLoop (process n e) e p (map snd items) (resolved @ withDirectives items final) st
                 = Some (Inr (resolved @ withContents f items final), st')
               \<and> visitedFiles st' = v"
  using ok plain occ vis
proof (induction items arbitrary: resolved st)
  case Nil
  then show ?case by simp
next
  case (Cons item items)
  obtain seg m where item: "item = (seg, m)" by (cases item)
  let ?rp = "resolvePath (cwd e) (filePath m) (rootPath e) p"
  let ?st1 = "st\<lparr>reads := reads st @ [?rp]\<rparr>"
  let ?t = "resolved @ withDirectives (item # items) final"
  from Cons.prems(1) item have some: "includeContent n e p v m = Some (f m)" by simp
  from Cons.prems(2) item have pl: "plainReplacement (f m)" by simp
  from Cons.prems(3) item
  have idx: "indexOf ?t (fullMatch m) = Some (length (resolved @ seg))"
    and occ': "firstOccurrences f (resolved @ seg @ f m) items final"
    by simp_all
  have rep: "replace ?t (fullMatch m) (f m) = (resolved @ seg @ f m) @ withDirectives items final"
    using replace_at_plain[OF idx pl] item by simp
  have v1: "visitedFiles ?st1 = v" using Cons.prems(4) by simp
  have ok': "\<forall>m\<in>set (map snd items). includeContent n e p v m = Some (f m)"
    and plain': "\<forall>m\<in>set (map snd items). plainReplacement (f m)"
    using Cons.prems(1,2) by simp_all
  show ?case
  proof (cases "readFile e ?rp")
    case None
    with some have fm: "f m = ''[MISSING FILE: '' @ filePath m @ '']''"
      by (simp add: includeContent_def Let_def)
    from Cons.IH[OF ok' plain' occ' v1] obtain st' where
      "includesLoop (process n e) e p (map snd items)
         ((resolved @ seg @ f m) @ withDirectives items final) ?st1
         = Some (Inr ((resolved @ seg @ f m) @ withContents f items final), st')"
      and "visitedFiles st' = v" by blast
    with None item rep[unfolded fm] fm show ?thesis
      by (simp add: Let_def del: process.simps)
  next
    case (Some fc)
    with some obtain pc s0 where
      sub0: "process n e fc ?rp \<lparr>visitedFiles = v, reads = []\<rparr> = Some (Inr pc, s0)"
      by (auto simp: includeContent_def Let_def split: option.splits sum.splits)
    with Some some have fm: "f m = afterPipelines e m pc"
      by (simp add: includeContent_def Let_def)
    from frame_okD[OF process_frame sub0] obtain new where
      fr: "\<And>st0. visitedFiles st0 = visitedFiles \<lparr>visitedFiles = v, reads = []\<rparr> \<Longrightarrow>
              process n e fc ?rp st0 = Some (Inr pc, s0\<lparr>reads := reads st0 @ new\<rparr>)"
      by blast
    let ?s2 = "s0\<lparr>reads := reads ?st1 @ new\<rparr>"
    have sub: "process n e fc ?rp ?st1 = Some (Inr pc, ?s2)"
      using fr[of ?st1] v1 by simp
    from process_visited[OF sub0] have "visitedFiles s0 = v" by simp
    then have v2: "visitedFiles ?s2 = v" by simp
    from Cons.IH[OF ok' plain' occ' v2] obtain st' where
      l: "includesLoop (process n e) e p (map snd items)
         ((resolved @ seg @ f m) @ withDirectives items final) ?s2
         = Some (Inr ((resolved @ seg @ f m) @ withContents f items final), st')"
      and v': "visitedFiles st' = v" by blast
    have "includesLoop (process n e) e p (map snd (item # items)) ?t st
          = includesLoop (process n e) e p (map snd items)
              (replace ?t (fullMatch m) (afterPipelines e m pc)) ?s2"
      using Some sub item by (simp add: Let_def afterPipelines_def del: process.simps)
    with l v' rep fm item show ?thesis by (simp del: process.simps)
  qed
qed

lemma process_fuel_mono_step:
  "process n e c p st = Some out \<Longrightarrow> process (Suc n) e c p st = Some out"
proof (induction n arbitrary: c p st out)
  case 0
  then show ?case by simp
next
  case (Suc n)
  have loop: "includesLoop (process n e) e q ms t s = Some lo \<Longrightarrow>
              includesLoop (process (Suc n) e) e q ms t s = Some lo" for q ms t s lo
  proof (induction ms arbitrary: t s)
    case Nil
    then show ?case by simp
  next
    case (Cons m ms)
    let ?rp = "resolvePath (cwd e) (filePath m) (rootPath e) q"
    let ?s1 = "s\<lparr>reads := reads s @ [?rp]\<rparr>"
    show ?case
    proof (cases "readFile e ?rp")
      case None
      with Cons.prems Cons.IH show ?thesis by (simp add: Let_def del: process.simps)
    next
      case (Some fc)
      with Cons.prems obtain so where so: "process n e fc ?rp ?s1 = Some so"
        by (cases "process n e fc ?rp ?s1") (simp_all add: Let_def del: process.simps)
      from Suc.IH[OF so] have so': "process (Suc n) e fc ?rp ?s1 = Some so" .
      obtain r s2 where sp: "so = (r, s2)" by (cases so)
      show ?thesis
      proof (cases r)
        case (Inl err)
        with Cons.prems Some so sp have "lo = (Inl err, s2)"
          by (simp add: Let_def del: process.simps)
        with Some so' sp Inl show ?thesis by (simp add: Let_def del: process.simps)
      next
        case (Inr pc)
        define pc' where "pc' =
          (case pipelinesStr m of
             None \<Rightarrow> pc
           | Some ps \<Rightarrow>
               (case pipelines e of
                  None \<Rightarrow> pc
                | Some availablePipelines \<Rightarrow>
                    if ps = [] then pc
                    else executePipelines pc ps availablePipelines (toolName e) (strategyName e)))"
        from Cons.prems Some so sp Inr
        have "includesLoop (process n e) e q ms (replace t (fullMatch m) pc') s2 = Some lo"
          by (simp add: Let_def pc'_def del: process.simps)
        from Cons.IH[OF this] Some so' sp Inr show ?thesis
          by (simp add: Let_def pc'_def del: process.simps)
      qed
    qed
  qed
  let ?p = "path_resolve (cwd e) [p]"
  show ?case
  proof (cases "?p \<in> set (visitedFiles st)")
    case True
    with Suc.prems show ?thesis by (simp add: Let_def)
  next
    case False
    let ?t = "processVisibility c (toolName e)"
    let ?st1 = "st\<lparr>visitedFiles := visitedFiles st @ [?p]\<rparr>"
    from Suc.prems False obtain lo where
      lo: "includesLoop (process n e) e ?p (scanIncludes 0 ?t) ?t ?st1 = Some lo"
      unfolding process_Suc_fresh[OF False]
      by (cases "includesLoop (process n e) e ?p (scanIncludes 0 ?t) ?t ?st1") simp_all
    from Suc.prems show ?thesis
      unfolding process_Suc_fresh[OF False] lo loop[OF lo] .
  qed
qed

lemma process_fuel_mono: "process n e c p st = Some out \<Longrightarrow> process (n + k) e c p st = Some out"
  by (induction k) (simp_all add: process_fuel_mono_step del: process.simps)

text \<open>
  The bound on the depth is only a device of the model: when finitely many files can be
  read, a call returns for every bound above the number of their normalized paths plus
  one, and by \<open>process_fuel_mono\<close> a larger bound does not change what it returns.
\<close>

lemma includesLoop_returns:
  assumes ok: "\<And>fc rp s. readFile e rp = Some fc \<Longrightarrow> visitedFiles s = v \<Longrightarrow> recur fc rp s \<noteq> None"
    and kept: "\<And>c p s out. recur c p s = Some out \<Longrightarrow> kept_or_grown s out"
  shows "visitedFiles st = v \<Longrightarrow> includesLoop recur e q ms t st \<noteq> None"
proof (induction ms arbitrary: t st)
  case Nil
  show ?case by simp
next
  case (Cons m ms)
  let ?rp = "resolvePath (cwd e) (filePath m) (rootPath e) q"
  let ?s1 = "st\<lparr>reads := reads st @ [?rp]\<rparr>"
  from Cons.prems have v1: "visitedFiles ?s1 = v" by simp
  show ?case
  proof (cases "readFile e ?rp")
    case None
    with Cons.IH[OF v1] show ?thesis by (simp add: Let_def)
  next
    case (Some fc)
    from ok[OF Some v1] obtain so where so: "recur fc ?rp ?s1 = Some so" by blast
    obtain r s2 where sp: "so = (r, s2)" by (cases so)
    show ?thesis
    proof (cases r)
      case (Inl err)
      with Some so sp show ?thesis by (simp add: Let_def)
    next
      case (Inr pc)
      from kept[OF so] sp Inr v1 have "visitedFiles s2 = v" by simp
      from Cons.IH[OF this] Some so sp Inr show ?thesis by (simp add: Let_def)
    qed
  qed
qed

lemma process_kept: "process n e c p s = Some out \<Longrightarrow> kept_or_grown s out"
  using process_visited by blast

lemma process_returns_on_file:
  assumes fin: "finite (dom (readFile e))"
  shows "readFile e rp = Some fc \<Longrightarrow> card (knownPaths e - set (visitedFiles st)) \<le> k \<Longrightarrow>
         process (Suc k) e fc rp st \<noteq> None"
proof (induction k arbitrary: fc rp st)
  case 0
  from fin have "finite (knownPaths e - set (visitedFiles st))" by (simp add: knownPaths_def)
  with 0 have "knownPaths e - set (visitedFiles st) = {}" by simp
  moreover from 0 have "path_resolve (cwd e) [rp] \<in> knownPaths e" by (auto simp: knownPaths_def)
  ultimately have "path_resolve (cwd e) [rp] \<in> set (visitedFiles st)" by blast
  then show ?case by (simp add: Let_def)
next
  case (Suc k)
  let ?p = "path_resolve (cwd e) [rp]"
  show ?case
  proof (cases "?p \<in> set (visitedFiles st)")
    case True
    then show ?thesis by (simp add: Let_def)
  next
    case False
    let ?v = "visitedFiles st @ [?p]"
    let ?t = "processVisibility fc (toolName e)"
    from Suc.prems have inK: "?p \<in> knownPaths e" by (auto simp: knownPaths_def)
    from fin have f: "finite (knownPaths e - set (visitedFiles st))" by (simp add: knownPaths_def)
    have eq: "knownPaths e - set ?v = (knownPaths e - set (visitedFiles st)) - {?p}" by auto
    from inK False have pin: "?p \<in> knownPaths e - set (visitedFiles st)" by simp
    have "card ((knownPaths e - set (visitedFiles st)) - {?p}) < card (knownPaths e - set (visitedFiles st))"
      using f pin by (rule card_Diff1_less)
    with eq have "card (knownPaths e - set ?v) < card (knownPaths e - set (visitedFiles st))"
      by simp
    with Suc.prems have le: "card (knownPaths e - set ?v) \<le> k" by simp
    have "includesLoop (process (Suc k) e) e ?p (scanIncludes 0 ?t) ?t
            (st\<lparr>visitedFiles := ?v\<rparr>) \<noteq> None"
    proof (rule includesLoop_returns[where v = ?v])
      fix fc' rp' and s :: pstate
      assume "readFile e rp' = Some fc'" "visitedFiles s = ?v"
      with Suc.IH[of rp' fc' s] le show "process (Suc k) e fc' rp' s \<noteq> None" by simp
    qed (erule process_kept, simp)
    then obtain r s2 where "includesLoop (process (Suc k) e) e ?p (scanIncludes 0 ?t) ?t
            (st\<lparr>visitedFiles := ?v\<rparr>) = Some (r, s2)"
      by fastforce
    then show ?thesis
      unfolding process_Suc_fresh[OF False] by (cases r) simp_all
  qed
qed

lemma process_returns:
  assumes fin: "finite (dom (readFile e))"
  shows "\<exists>out. process (card (knownPaths e) + 2) e c p st = Some out"
proof (cases "path_resolve (cwd e) [p] \<in> set (visitedFiles st)")
  case True
  have "card (knownPaths e) + 2 = Suc (Suc (card (knownPaths e)))" by simp
  moreover from True have "\<exists>out. process (Suc (Suc (card (knownPaths e)))) e c p st = Some out"
    by (simp add: Let_def)
  ultimately show ?thesis by (simp only:)
next
  case False
  let ?p = "path_resolve (cwd e) [p]"
  let ?v = "visitedFiles st @ [?p]"
  let ?t = "processVisibility c (toolName e)"
  let ?k = "card (knownPaths e)"
  from fin have fk: "finite (knownPaths e)" by (simp add: knownPaths_def)
  have "includesLoop (process (Suc ?k) e) e ?p (scanIncludes 0 ?t) ?t (st\<lparr>visitedFiles := ?v\<rparr>) \<noteq> None"
  proof (rule includesLoop_returns[where v = ?v])
    fix fc rp and s :: pstate
    assume r: "readFile e rp = Some fc" and "visitedFiles s = ?v"
    from fk have "card (knownPaths e - set (visitedFiles s)) \<le> ?k"
      by (intro card_mono) auto
    with process_returns_on_file[OF fin r] show "process (Suc ?k) e fc rp s \<noteq> None" by blast
  qed (erule process_kept, simp)
  then obtain r s2 where "includesLoop (process (Suc ?k) e) e ?p (scanIncludes 0 ?t) ?t
            (st\<lparr>visitedFiles := ?v\<rparr>) = Some (r, s2)"
    by fastforce
  then have "\<exists>out. process (Suc (Suc ?k)) e c p st = Some out"
    unfolding process_Suc_fresh[OF False] by (cases r) simp_all
  moreover have "card (knownPaths e) + 2 = Suc (Suc ?k)" by simp
  ultimately show ?thesis by (simp only:)
qed

text \<open>
  Claim C1, as amended. A call whose normalized \<^verbatim>\<open>currentFilePath\<close> is in the visitation
  set at entry fails with the CircularDependency error that names this path, and leaves
  the state as it is. For a document with any number of include directives: when every
  directive names a file that cannot be read or whose own processing succeeds (from the
  set in which the document's path has been added), no replacement text holds one of
  the patterns \<^verbatim>\<open>$$\<close>, \<^verbatim>\<open>$&\<close>, \<^verbatim>\<open>$`\<close>, \<^verbatim>\<open>$'\<close>, and each time the first occurrence of the
  directive text is the directive that is being resolved, then processing the document
  succeeds, every directive is replaced by its replacement text, and the visitation set
  is the one at entry. Two directives that resolve to the same readable file and have
  the same pipelines have the same replacement text, however their paths are written:
  a file included twice side by side gives its resolved content twice.
\<close>

theorem cycle_check_and_sibling_includes:
  "(path_resolve (cwd e) [includer] \<in> set (visitedFiles st) \<longrightarrow>
      process (Suc n) e c includer st
        = Some (Inl (CircularDependency (path_resolve (cwd e) [includer]) (visitedFiles st)), st))
   \<and> (path_resolve (cwd e) [includer] \<notin> set (visitedFiles st) \<and>
       processVisibility c (toolName e) = withDirectives items final \<and>
       scanIncludes 0 (withDirectives items final) = map snd items \<and>
       (\<forall>m\<in>set (map snd items).
          includeContent n e (path_resolve (cwd e) [includer])
            (visitedFiles st @ [path_resolve (cwd e) [includer]]) m = Some (f m)) \<and>
       (\<forall>m\<in>set (map snd items). plainReplacement (f m)) \<and>
       firstOccurrences f [] items final
      \<longrightarrow>
      (\<exists>st'. process (Suc n) e c includer st = Some (Inr (withContents f items final), st') \<and>
             visitedFiles st' = visitedFiles st))
   \<and> (resolvePath (cwd e) (filePath m1) (rootPath e) q = resolvePath (cwd e) (filePath m2) (rootPath e) q \<and>
       readFile e (resolvePath (cwd e) (filePath m1) (rootPath e) q) \<noteq> None \<and>
       pipelinesStr m1 = pipelinesStr m2
      \<longrightarrow> includeContent n e q v m1 = includeContent n e q v m2)"
proof (intro conjI impI)
  assume "path_resolve (cwd e) [includer] \<in> set (visitedFiles st)"
  then show "process (Suc n) e c includer st
        = Some (Inl (CircularDependency (path_resolve (cwd e) [includer]) (visitedFiles st)), st)"
    by (simp add: Let_def)
next
  let ?p = "path_resolve (cwd e) [includer]"
  let ?st1 = "st\<lparr>visitedFiles := visitedFiles st @ [?p]\<rparr>"
  assume h: "?p \<notin> set (visitedFiles st) \<and>
       processVisibility c (toolName e) = withDirectives items final \<and>
       scanIncludes 0 (withDirectives items final) = map snd items \<and>
       (\<forall>m\<in>set (map snd items). includeContent n e ?p (visitedFiles st @ [?p]) m = Some (f m)) \<and>
       (\<forall>m\<in>set (map snd items). plainReplacement (f m)) \<and>
       firstOccurrences f [] items final"
  then have fresh: "?p \<notin> set (visitedFiles st)"
    and filtered: "processVisibility c (toolName e) = withDirectives items final"
    and scan: "scanIncludes 0 (withDirectives items final) = map snd items"
    and ok: "\<forall>m\<in>set (map snd items). includeContent n e ?p (visitedFiles st @ [?p]) m = Some (f m)"
    and plain: "\<forall>m\<in>set (map snd items). plainReplacement (f m)"
    and occ: "firstOccurrences f [] items final"
    by blast+
  have "visitedFiles ?st1 = visitedFiles st @ [?p]" by simp
  from includesLoop_items[OF ok plain occ this] obtain st2 where
    loop: "includesLoop (process n e) e ?p (map snd items) (withDirectives items final) ?st1
             = Some (Inr (withContents f items final), st2)"
    and v2: "visitedFiles st2 = visitedFiles st @ [?p]"
    by auto
  have "process (Suc n) e c includer st
      = Some (Inr (withContents f items final), st2\<lparr>visitedFiles := removeAll ?p (visitedFiles st2)\<rparr>)"
    unfolding process_Suc_fresh[OF fresh] filtered scan loop by simp
  moreover have "visitedFiles (st2\<lparr>visitedFiles := removeAll ?p (visitedFiles st2)\<rparr>) = visitedFiles st"
    using v2 fresh by simp
  ultimately show "\<exists>st'. process (Suc n) e c includer st = Some (Inr (withContents f items final), st') \<and>
             visitedFiles st' = visitedFiles st"
    by blast
next
  assume "resolvePath (cwd e) (filePath m1) (rootPath e) q = resolvePath (cwd e) (filePath m2) (rootPath e) q \<and>
       readFile e (resolvePath (cwd e) (filePath m1) (rootPath e) q) \<noteq> None \<and>
       pipelinesStr m1 = pipelinesStr m2"
  then show "includeContent n e q v m1 = includeContent n e q v m2"
    by (auto simp: includeContent_def afterPipelines_def Let_def split: option.splits sum.splits)
qed

theorem cycle_check_and_sibling_includes_witness:
  "path_resolve (cwd demo_env) [''/proj/docs/a.md''] \<in> set (visitedFiles \<lparr>visitedFiles = [''/proj/main.md'', ''/proj/docs/a.md''], reads = []\<rparr>)
   \<and> process (Suc 0) demo_env ''anything'' ''/proj/docs/a.md'' \<lparr>visitedFiles = [''/proj/main.md'', ''/proj/docs/a.md''], reads = []\<rparr>
       = Some (Inl (CircularDependency ''/proj/docs/a.md'' [''/proj/main.md'', ''/proj/docs/a.md'']),
               \<lparr>visitedFiles = [''/proj/main.md'', ''/proj/docs/a.md''], reads = []\<rparr>)
   \<and> scanIncludes 0 (withDirectives price_items ''.'') = map snd price_items
   \<and> map (includeContent (Suc 0) price_env ''/proj/docs/main.md'' [''/proj/docs/main.md'']) (map snd price_items)
       = [Some ''inner of docs'', Some ''US$5 and $HOME'', Some ''US$5 and $HOME'']
   \<and> map price_content (map snd price_items) = [''inner of docs'', ''US$5 and $HOME'', ''US$5 and $HOME'']
   \<and> plainReplacement ''inner of docs'' \<and> plainReplacement ''US$5 and $HOME''
   \<and> firstOccurrences price_content [] price_items ''.''
   \<and> withContents price_content price_items ''.'' = ''see inner of docs: US$5 and $HOME - US$5 and $HOME.''
   \<and> (\<exists>st'. process (Suc (Suc 0)) price_env (withDirectives price_items ''.'') ''/proj/docs/main.md'' fresh
             = Some (Inr ''see inner of docs: US$5 and $HOME - US$5 and $HOME.'', st')
           \<and> visitedFiles st' = visitedFiles fresh)
   \<and> includeContent (Suc 0) price_env ''/proj/docs/main.md'' [''/proj/docs/main.md''] (snd (price_items ! 1))
       = includeContent (Suc 0) price_env ''/proj/docs/main.md'' [''/proj/docs/main.md''] (snd (price_items ! 2))"
proof -
  let ?st = "\<lparr>visitedFiles = [''/proj/main.md'', ''/proj/docs/a.md''], reads = []\<rparr>"
  have p: "path_resolve (cwd demo_env) [''/proj/docs/a.md''] = ''/proj/docs/a.md''"
    by code_simp
  have 1: "path_resolve (cwd demo_env) [''/proj/docs/a.md''] \<in> set (visitedFiles ?st)"
    by code_simp
  have "process (Suc 0) demo_env ''anything'' ''/proj/docs/a.md'' ?st
       = Some (Inl (CircularDependency (path_resolve (cwd demo_env) [''/proj/docs/a.md'']) (visitedFiles ?st)), ?st)"
    by (rule cycle_check_and_sibling_includes[where e = demo_env and includer = "''/proj/docs/a.md''"
          and st = ?st and n = 0 and c = "''anything''", THEN conjunct1, THEN mp]) (rule 1)
  then have 2: "process (Suc 0) demo_env ''anything'' ''/proj/docs/a.md'' ?st
       = Some (Inl (CircularDependency ''/proj/docs/a.md'' [''/proj/main.md'', ''/proj/docs/a.md'']), ?st)"
    unfolding p by simp
  have pm: "path_resolve (cwd price_env) [''/proj/docs/main.md''] = ''/proj/docs/main.md''"
    by code_simp
  have h1: "path_resolve (cwd price_env) [''/proj/docs/main.md''] \<notin> set (visitedFiles fresh)"
    and h2: "processVisibility (withDirectives price_items ''.'') (toolName price_env)
               = withDirectives price_items ''.''"
    and h3: "scanIncludes 0 (withDirectives price_items ''.'') = map snd price_items"
    and h4: "\<forall>m\<in>set (map snd price_items).
          includeContent (Suc 0) price_env (path_resolve (cwd price_env) [''/proj/docs/main.md''])
            (visitedFiles fresh @ [path_resolve (cwd price_env) [''/proj/docs/main.md'']]) m
          = Some (price_content m)"
    and h5: "\<forall>m\<in>set (map snd price_items). plainReplacement (price_content m)"
    and h6: "firstOccurrences price_content [] price_items ''.''"
    by code_simp+
  have c1: "map (includeContent (Suc 0) price_env ''/proj/docs/main.md'' [''/proj/docs/main.md'']) (map snd price_items)
       = [Some ''inner of docs'', Some ''US$5 and $HOME'', Some ''US$5 and $HOME'']"
    and c2: "map price_content (map snd price_items) = [''inner of docs'', ''US$5 and $HOME'', ''US$5 and $HOME'']"
    and c3: "plainReplacement ''inner of docs''" "plainReplacement ''US$5 and $HOME''"
    by code_simp+
  have w: "withContents price_content price_items ''.'' = ''see inner of docs: US$5 and $HOME - US$5 and $HOME.''"
    by code_simp
  have "\<exists>st'. process (Suc (Suc 0)) price_env (withDirectives price_items ''.'') ''/proj/docs/main.md'' fresh
             = Some (Inr (withContents price_content price_items ''.''), st')
           \<and> visitedFiles st' = visitedFiles fresh"
    by (rule cycle_check_and_sibling_includes[where e = price_env and includer = "''/proj/docs/main.md''"
          and st = fresh and n = "Suc 0" and c = "withDirectives price_items ''.''"
          and items = price_items and final = "''.''" and f = price_content,
          THEN conjunct2, THEN conjunct1, THEN mp])
       (intro conjI h1 h2 h3 h4 h5 h6)
  then have 3: "\<exists>st'. process (Suc (Suc 0)) price_env (withDirectives price_items ''.'') ''/proj/docs/main.md'' fresh
             = Some (Inr ''see inner of docs: US$5 and $HOME - US$5 and $HOME.'', st')
           \<and> visitedFiles st' = visitedFiles fresh"
    unfolding w .
  have s: "resolvePath (cwd price_env) (filePath (snd (price_items ! 1))) (rootPath price_env) ''/proj/docs/main.md''
         = resolvePath (cwd price_env) (filePath (snd (price_items ! 2))) (rootPath price_env) ''/proj/docs/main.md''
       \<and> readFile price_env (resolvePath (cwd price_env) (filePath (snd (price_items ! 1))) (rootPath price_env) ''/proj/docs/main.md'') \<noteq> None
       \<and> pipelinesStr (snd (price_items ! 1)) = pipelinesStr (snd (price_items ! 2))"
    by (intro conjI; code_simp)
  have 4: "includeContent (Suc 0) price_env ''/proj/docs/main.md'' [''/proj/docs/main.md''] (snd (price_items ! 1))
       = includeContent (Suc 0) price_env ''/proj/docs/main.md'' [''/proj/docs/main.md''] (snd (price_items ! 2))"
    by (rule cycle_check_and_sibling_includes[where e = price_env and n = "Suc 0"
          and ?m1.0 = "snd (price_items ! 1)" and ?m2.0 = "snd (price_items ! 2)"
          and q = "''/proj/docs/main.md''" and v = "[''/proj/docs/main.md'']",
          THEN conjunct2, THEN conjunct2, THEN mp]) (rule s)
  from 1 2 h3 c1 c2 c3 h6 w 3 4 show ?thesis by blast
qed

text \<open>
  Claim C1 as stated fails on a document that includes \<^verbatim>\<open>wrap.md\<close> twice, side by side.
  \<^verbatim>\<open>wrap.md\<close> does not include itself, but it includes \<^verbatim>\<open>self.md\<close>, which does: the call
  fails with CircularDependency for \<^verbatim>\<open>self.md\<close>.
\<close>

theorem sibling_includes_nested_cycle_counterexample:
  "scanIncludes 0 (wrap_directive @ ''-'' @ wrap_directive) = [wrap_match, wrap_match]
   \<and> readFile demo_env ''/proj/docs/wrap.md'' = Some (''W-'' @ self_doc)
   \<and> scanIncludes 0 (''W-'' @ self_doc)
        = [\<lparr>fullMatch = self_doc, filePath = ''./self.md'', pipelinesStr = None\<rparr>]
   \<and> process 4 demo_env (wrap_directive @ ''-'' @ wrap_directive) ''/proj/docs/main.md'' fresh
       = Some (Inl (CircularDependency ''/proj/docs/self.md''
                      [''/proj/docs/main.md'', ''/proj/docs/wrap.md'', ''/proj/docs/self.md'']),
               \<lparr>visitedFiles = [''/proj/docs/main.md'', ''/proj/docs/wrap.md'', ''/proj/docs/self.md''],
                  reads = [''/proj/docs/wrap.md'', ''/proj/docs/self.md'', ''/proj/docs/self.md'']\<rparr>)"
  by code_simp

text \<open>
  Claim C2, as amended. A call that does not fail at entry adds the normalized path to
  the visitation set before the includes of the content are resolved. After a call that
  returns content the set is the one at entry and does not contain the path. After a
  call that fails, the set at entry is an initial part of the set and the path is in
  it: it was there at entry, and then the state is unchanged, or it was added and has
  not been removed.
\<close>

theorem visitedFiles_restored_on_success:
  "(process n e c includer st = Some (Inr t, st') \<longrightarrow>
      visitedFiles st' = visitedFiles st \<and> path_resolve (cwd e) [includer] \<notin> set (visitedFiles st'))
   \<and> (process n e c includer st = Some (Inl err, st') \<longrightarrow>
      prefix (visitedFiles st) (visitedFiles st') \<and>
      path_resolve (cwd e) [includer] \<in> set (visitedFiles st'))
   \<and> (path_resolve (cwd e) [includer] \<in> set (visitedFiles st) \<and>
       process n e c includer st = Some (out, st') \<longrightarrow> st' = st)
   \<and> (path_resolve (cwd e) [includer] \<notin> set (visitedFiles st) \<longrightarrow>
      process (Suc n) e c includer st =
        (case includesLoop (process n e) e (path_resolve (cwd e) [includer])
                (scanIncludes 0 (processVisibility c (toolName e))) (processVisibility c (toolName e))
                (st\<lparr>visitedFiles := visitedFiles st @ [path_resolve (cwd e) [includer]]\<rparr>) of
           None \<Rightarrow> None
         | Some (Inl err, st2) \<Rightarrow> Some (Inl err, st2)
         | Some (Inr t', st2) \<Rightarrow>
             Some (Inr t', st2\<lparr>visitedFiles := removeAll (path_resolve (cwd e) [includer]) (visitedFiles st2)\<rparr>)))"
proof (intro conjI impI)
  assume a: "process n e c includer st = Some (Inr t, st')"
  from process_visited[OF a] show "visitedFiles st' = visitedFiles st" by simp
  have "path_resolve (cwd e) [includer] \<notin> set (visitedFiles st)"
  proof
    assume "path_resolve (cwd e) [includer] \<in> set (visitedFiles st)"
    with a show False by (cases n) (simp_all add: Let_def)
  qed
  with process_visited[OF a] show "path_resolve (cwd e) [includer] \<notin> set (visitedFiles st')" by simp
next
  assume a: "process n e c includer st = Some (Inl err, st')"
  from process_visited[OF a] show "prefix (visitedFiles st) (visitedFiles st')" by simp
  from process_visited[OF a] show "path_resolve (cwd e) [includer] \<in> set (visitedFiles st')" by simp
next
  assume "path_resolve (cwd e) [includer] \<in> set (visitedFiles st) \<and>
       process n e c includer st = Some (out, st')"
  then show "st' = st" by (cases n) (auto simp: Let_def)
next
  assume "path_resolve (cwd e) [includer] \<notin> set (visitedFiles st)"
  then show "process (Suc n) e c includer st =
        (case includesLoop (process n e) e (path_resolve (cwd e) [includer])
                (scanIncludes 0 (processVisibility c (toolName e))) (processVisibility c (toolName e))
                (st\<lparr>visitedFiles := visitedFiles st @ [path_resolve (cwd e) [includer]]\<rparr>) of
           None \<Rightarrow> None
         | Some (Inl err, st2) \<Rightarrow> Some (Inl err, st2)
         | Some (Inr t', st2) \<Rightarrow>
             Some (Inr t', st2\<lparr>visitedFiles := removeAll (path_resolve (cwd e) [includer]) (visitedFiles st2)\<rparr>))"
    by (rule process_Suc_fresh)
qed

theorem visitedFiles_restored_on_success_witness:
  "process 2 demo_env (shared_directive @ ''-'' @ shared_directive) ''/proj/docs/main.md''
       \<lparr>visitedFiles = [''/proj/top.md''], reads = []\<rparr>
     = Some (Inr ''Shared-Shared'',
             \<lparr>visitedFiles = [''/proj/top.md''], reads = [''/proj/docs/shared.md'', ''/proj/docs/shared.md'']\<rparr>)
   \<and> visitedFiles \<lparr>visitedFiles = [''/proj/top.md''], reads = [''/proj/docs/shared.md'', ''/proj/docs/shared.md'']\<rparr>
       = visitedFiles \<lparr>visitedFiles = [''/proj/top.md''], reads = []\<rparr>
   \<and> process 3 demo_env self_doc ''/proj/docs/main.md'' fresh
     = Some (Inl (CircularDependency ''/proj/docs/self.md'' [''/proj/docs/main.md'', ''/proj/docs/self.md'']),
             \<lparr>visitedFiles = [''/proj/docs/main.md'', ''/proj/docs/self.md''],
                reads = [''/proj/docs/self.md'', ''/proj/docs/self.md'']\<rparr>)
   \<and> path_resolve (cwd demo_env) [''/proj/docs/main.md'']
       \<in> set (visitedFiles \<lparr>visitedFiles = [''/proj/docs/main.md'', ''/proj/docs/self.md''],
                reads = [''/proj/docs/self.md'', ''/proj/docs/self.md'']\<rparr>)
   \<and> path_resolve (cwd demo_env) [''/proj/top.md''] \<in> set (visitedFiles \<lparr>visitedFiles = [''/proj/top.md''], reads = []\<rparr>)
   \<and> process 1 demo_env self_doc ''/proj/top.md'' \<lparr>visitedFiles = [''/proj/top.md''], reads = []\<rparr>
     = Some (Inl (CircularDependency ''/proj/top.md'' [''/proj/top.md'']), \<lparr>visitedFiles = [''/proj/top.md''], reads = []\<rparr>)"
proof -
  let ?s0 = "\<lparr>visitedFiles = [''/proj/top.md''], reads = []\<rparr>"
  let ?s1 = "\<lparr>visitedFiles = [''/proj/top.md''], reads = [''/proj/docs/shared.md'', ''/proj/docs/shared.md'']\<rparr>"
  let ?s2 = "\<lparr>visitedFiles = [''/proj/docs/main.md'', ''/proj/docs/self.md''],
                reads = [''/proj/docs/self.md'', ''/proj/docs/self.md'']\<rparr>"
  let ?err = "CircularDependency ''/proj/docs/self.md'' [''/proj/docs/main.md'', ''/proj/docs/self.md'']"
  let ?err1 = "CircularDependency ''/proj/top.md'' [''/proj/top.md'']"
  have ok: "process 2 demo_env (shared_directive @ ''-'' @ shared_directive) ''/proj/docs/main.md'' ?s0
     = Some (Inr ''Shared-Shared'', ?s1)"
    by code_simp
  have bad: "process 3 demo_env self_doc ''/proj/docs/main.md'' fresh = Some (Inl ?err, ?s2)"
    by code_simp
  have entry: "path_resolve (cwd demo_env) [''/proj/top.md''] \<in> set (visitedFiles ?s0)"
    and e1: "process 1 demo_env self_doc ''/proj/top.md'' ?s0 = Some (Inl ?err1, ?s0)"
    by code_simp+
  have 1: "visitedFiles ?s1 = visitedFiles ?s0"
    using visitedFiles_restored_on_success[where n = 2 and e = demo_env
        and c = "shared_directive @ ''-'' @ shared_directive" and includer = "''/proj/docs/main.md''"
        and st = ?s0 and t = "''Shared-Shared''" and st' = ?s1, THEN conjunct1, THEN mp, OF ok]
    by (rule conjunct1)
  have 2: "path_resolve (cwd demo_env) [''/proj/docs/main.md''] \<in> set (visitedFiles ?s2)"
    using visitedFiles_restored_on_success[where n = 3 and e = demo_env
        and c = self_doc and includer = "''/proj/docs/main.md''"
        and st = fresh and err = ?err and st' = ?s2, THEN conjunct2, THEN conjunct1, THEN mp, OF bad]
    by (rule conjunct2)
  from ok 1 bad 2 entry e1 show ?thesis by blast
qed

text \<open>
  Claim C2 as stated fails when a nested call fails: processing a document that includes
  \<^verbatim>\<open>self.md\<close> starts from the empty set and ends, with the CircularDependency error, in a
  state whose set holds the document and \<^verbatim>\<open>self.md\<close>.
\<close>

theorem visitedFiles_not_restored_on_failure_counterexample:
  "process 3 demo_env self_doc ''/proj/docs/main.md'' fresh
     = Some (Inl (CircularDependency ''/proj/docs/self.md'' [''/proj/docs/main.md'', ''/proj/docs/self.md'']),
             \<lparr>visitedFiles = [''/proj/docs/main.md'', ''/proj/docs/self.md''],
                reads = [''/proj/docs/self.md'', ''/proj/docs/self.md'']\<rparr>)
   \<and> visitedFiles \<lparr>visitedFiles = [''/proj/docs/main.md'', ''/proj/docs/self.md''],
                reads = [''/proj/docs/self.md'', ''/proj/docs/self.md'']\<rparr> \<noteq> visitedFiles fresh"
  by code_simp

lemma processVisibility_region:
  assumes "indexOf c TAG_OPEN_START = Some si" "findClosing c 0 si = Some ci"
  shows "processVisibility c tool =
           take si c
           @ (if shouldKeep (substring c si (openingTagEnd1 c si)) tool
              then processVisibility (substring c (openingTagEnd1 c si) ci) tool else [])
           @ processVisibility (drop (ci + length TAG_CLOSE) c) tool"
  using assms by (subst processVisibility.simps) (simp add: Let_def)

lemma same_outside_dropped_filtered:
  "same_outside_dropped tool c c' \<Longrightarrow> processVisibility c tool = processVisibility c' tool"
proof (induction rule: same_outside_dropped.induct)
  case (same c)
  show ?case by simp
next
  case (dropped c si ci c' ci')
  then show ?case
    by (simp add: processVisibility_region[of c si ci] processVisibility_region[of c' si ci'])
next
  case (kept c si ci c' ci')
  then show ?case
    by (simp add: processVisibility_region[of c si ci] processVisibility_region[of c' si ci'])
qed

text \<open>
  Claim C3. The outcome of \<^verbatim>\<open>process\<close>, with its file reads, depends on the content only
  through the filtered text: two contents with the same filtered text give the same
  outcome from the same state. When the first filter region of a content is dropped for
  the tool, the filtered text is the text before the region followed by the filtered
  rest, so nothing of the region reaches include resolution. Hence two contents that
  differ only inside dropped regions, at any nesting depth, give the same outcome and
  the same reads, whatever include directives the regions hold. Nested calls are calls
  of \<^verbatim>\<open>process\<close>, so this holds at every level.
\<close>

theorem filter_precedes_includes:
  "(processVisibility c1 (toolName e) = processVisibility c2 (toolName e) \<longrightarrow>
      process n e c1 includer st = process n e c2 includer st)
   \<and> (indexOf c TAG_OPEN_START = Some si \<and> findClosing c 0 si = Some ci \<and>
       \<not> shouldKeep (substring c si (openingTagEnd1 c si)) (toolName e) \<longrightarrow>
      processVisibility c (toolName e)
        = take si c @ processVisibility (drop (ci + length TAG_CLOSE) c) (toolName e))
   \<and> (same_outside_dropped (toolName e) c c' \<longrightarrow>
      process n e c includer st = process n e c' includer st)"
proof -
  have eq: "process n e a includer st = process n e b includer st"
    if "processVisibility a (toolName e) = processVisibility b (toolName e)" for a b
    using that by (cases n) (simp_all add: Let_def)
  from eq[of c1 c2] processVisibility_region[of c si ci "toolName e"]
    eq[OF same_outside_dropped_filtered[of "toolName e" c c']]
  show ?thesis by simp
qed

theorem filter_precedes_includes_witness:
  "same_outside_dropped (toolName demo_env) dropped_self_doc dropped_inner_doc
   \<and> process 3 demo_env dropped_self_doc ''/proj/docs/main.md'' fresh
       = process 3 demo_env dropped_inner_doc ''/proj/docs/main.md'' fresh
   \<and> process 3 demo_env dropped_inner_doc ''/proj/docs/main.md'' fresh
       = Some (Inr ''AShared'', \<lparr>visitedFiles = [], reads = [''/proj/docs/shared.md'']\<rparr>)
   \<and> process 3 roo_env dropped_self_doc ''/proj/docs/main.md'' fresh
       = Some (Inl (CircularDependency ''/proj/docs/self.md'' [''/proj/docs/main.md'', ''/proj/docs/self.md'']),
               \<lparr>visitedFiles = [''/proj/docs/main.md'', ''/proj/docs/self.md''],
                  reads = [''/proj/docs/self.md'', ''/proj/docs/self.md'']\<rparr>)"
proof -
  have rest: "drop (88 + length TAG_CLOSE) dropped_self_doc = drop (89 + length TAG_CLOSE) dropped_inner_doc"
    by code_simp
  have h: "same_outside_dropped (toolName demo_env) dropped_self_doc dropped_inner_doc"
  proof (rule same_outside_dropped.dropped[where si = 1 and ci = 88 and ci' = 89])
    show "same_outside_dropped (toolName demo_env) (drop (88 + length TAG_CLOSE) dropped_self_doc)
            (drop (89 + length TAG_CLOSE) dropped_inner_doc)"
      unfolding rest by (rule same_outside_dropped.same)
  qed code_simp+
  have eq: "process 3 demo_env dropped_self_doc ''/proj/docs/main.md'' fresh
       = process 3 demo_env dropped_inner_doc ''/proj/docs/main.md'' fresh"
    by (rule filter_precedes_includes[where e = demo_env and c = dropped_self_doc
          and c' = dropped_inner_doc, THEN conjunct2, THEN conjunct2, THEN mp]) (rule h)
  have v: "process 3 demo_env dropped_inner_doc ''/proj/docs/main.md'' fresh
       = Some (Inr ''AShared'', \<lparr>visitedFiles = [], reads = [''/proj/docs/shared.md'']\<rparr>)"
    by code_simp
  have r: "process 3 roo_env dropped_self_doc ''/proj/docs/main.md'' fresh
       = Some (Inl (CircularDependency ''/proj/docs/self.md'' [''/proj/docs/main.md'', ''/proj/docs/self.md'']),
               \<lparr>visitedFiles = [''/proj/docs/main.md'', ''/proj/docs/self.md''],
                  reads = [''/proj/docs/self.md'', ''/proj/docs/self.md'']\<rparr>)"
    by code_simp
  from h eq v r show ?thesis by blast
qed

end
